theory Spec2Isabelle
  imports Main "HOL-Library.AList"
begin

section \<open>Strings, characters and the character classes of the regular expressions\<close>

text \<open>
  A JavaScript string is a sequence of UTF-16 code units. The model covers the code units
  below 256: a \<^typ>\<open>string\<close> is the list of them, one \<^typ>\<open>char\<close> each, so indices and
  lengths are the ones JavaScript computes.
\<close>

definition LF :: char where "LF = CHR 0x0A"
definition CR :: char where "CR = CHR 0x0D"
definition dquote :: char where "dquote = CHR 0x22"
definition backslash :: char where "backslash = CHR 0x5C"

definition code :: "char \<Rightarrow> nat" where
  "code c = of_char c"

text \<open>The class \<open>[A-Za-z]\<close>.\<close>
definition isLetter :: "char \<Rightarrow> bool" where
  "isLetter c = ((65 \<le> code c \<and> code c \<le> 90) \<or> (97 \<le> code c \<and> code c \<le> 122))"

text \<open>The class \<open>[0-9]\<close>.\<close>
definition isDigit :: "char \<Rightarrow> bool" where
  "isDigit c = (48 \<le> code c \<and> code c \<le> 57)"

text \<open>The class \<open>[A-Za-z_]\<close>, the first character of an identifier.\<close>
definition identStart :: "char \<Rightarrow> bool" where
  "identStart c = (isLetter c \<or> c = CHR ''_'')"

text \<open>The class \<open>[A-Za-z0-9_]\<close>, which is also what \<open>\b\<close> takes for a word character.\<close>
definition identChar :: "char \<Rightarrow> bool" where
  "identChar c = (isLetter c \<or> isDigit c \<or> c = CHR ''_'')"

text \<open>The class \<open>\s\<close> below code unit 256: tab, line feed, vertical tab, form feed, carriage
  return, space and the no-break space.\<close>
definition isSpace :: "char \<Rightarrow> bool" where
  "isSpace c = (code c \<in> {9, 10, 11, 12, 13, 32, 160})"

text \<open>The class \<open>.\<close>: everything but a line terminator.\<close>
definition dotChar :: "char \<Rightarrow> bool" where
  "dotChar c = (c \<noteq> LF \<and> c \<noteq> CR)"

text \<open>\<open>s.includes(sub)\<close>\<close>
fun str_includes :: "string \<Rightarrow> string \<Rightarrow> bool" where
  "str_includes [] sub = (sub = [])"
| "str_includes (c # cs) sub = (take (length sub) (c # cs) = sub \<or> str_includes cs sub)"

text \<open>\<open>s.slice(a, b)\<close> for \<open>0 \<le> a\<close>, \<open>0 \<le> b\<close>: empty when \<open>b \<le> a\<close>.\<close>
definition slice :: "string \<Rightarrow> nat \<Rightarrow> nat \<Rightarrow> string" where
  "slice s a b = take (b - a) (drop a s)"

text \<open>\<open>s.indexOf(c, from)\<close> for a single character \<open>c\<close>; \<open>None\<close> is the result \<open>-1\<close>.\<close>
definition indexOf :: "string \<Rightarrow> char \<Rightarrow> nat \<Rightarrow> nat option" where
  "indexOf s c from =
     (if c \<in> set (drop from s)
      then Some (from + length (takeWhile (\<lambda>x. x \<noteq> c) (drop from s)))
      else None)"

text \<open>\<open>text.split(/\r?\n/)\<close>: a line feed, with the carriage return right before it when
  there is one, separates two lines; any other carriage return stays in its line.\<close>
fun splitLines :: "string \<Rightarrow> string list" where
  "splitLines [] = [[]]"
| "splitLines (c # cs) =
     (if c = LF then [] # splitLines cs
      else if c = CR \<and> take 1 cs = [LF] then [] # splitLines (drop 1 cs)
      else (case splitLines cs of [] \<Rightarrow> [[c]] | l # ls \<Rightarrow> (c # l) # ls))"

section \<open>util.ts: stripStrings\<close>

text \<open>
  The body and the closing delimiter of \<open>/\\"([^\\"\\]|\\.)*\\"/\<close>, matched against the
  characters after the opening delimiter; the result is the number of characters consumed.
  In the regular-expression literal \<open>\\\<close> is a backslash, so the delimiter \<open>\\"\<close> is a
  backslash followed by a double quote. The loop is greedy and backtracks: it tries the first
  alternative (a character that is neither a backslash nor a double quote), then the second
  (a backslash and any character but a line terminator), and leaves the loop for the closing
  delimiter only where going on fails.
\<close>
fun stringBody :: "string \<Rightarrow> nat option" where
  "stringBody [] = None"
| "stringBody [c] =
     (if c \<noteq> backslash \<and> c \<noteq> dquote
      then (case stringBody [] of Some n \<Rightarrow> Some (n + 1) | None \<Rightarrow> None)
      else None)"
| "stringBody (c # d # cs) =
     (if c \<noteq> backslash \<and> c \<noteq> dquote
      then (case stringBody (d # cs) of Some n \<Rightarrow> Some (n + 1) | None \<Rightarrow> None)
      else if c = backslash \<and> dotChar d
      then (case stringBody cs of Some n \<Rightarrow> Some (n + 2)
            | None \<Rightarrow> if d = dquote then Some 2 else None)
      else None)"

text \<open>The whole pattern at the head of the input: the length of the match.\<close>
definition stringMatch :: "string \<Rightarrow> nat option" where
  "stringMatch s =
     (if take 2 s = [backslash, dquote]
      then (case stringBody (drop 2 s) of Some n \<Rightarrow> Some (n + 2) | None \<Rightarrow> None)
      else None)"

lemma stringMatch_pos: "stringMatch s = Some n \<Longrightarrow> 0 < n"
  by (auto simp: stringMatch_def split: if_splits option.splits)

text \<open>\<open>line.replace(/.../g, (match) => ' '.repeat(match.length))\<close>: every match, found from
  the left and after the previous one, becomes as many spaces.\<close>
function stripStrings :: "string \<Rightarrow> string" where
  "stripStrings [] = []"
| "stripStrings (c # cs) =
     (case stringMatch (c # cs) of
        Some n \<Rightarrow> replicate n (CHR '' '') @ stripStrings (drop n (c # cs))
      | None \<Rightarrow> c # stripStrings cs)"
  by pat_completeness auto
termination
  by (relation "measure length") (auto dest: stringMatch_pos)

section \<open>symbolTable.ts: getWordAtPosition\<close>

text \<open>\<open>/[A-Za-z_][A-Za-z0-9_]*/\<close> at the head of the input: the word it matches. The
  loop is greedy and the pattern ends with it, so the longest word is the match.\<close>
definition identMatch :: "string \<Rightarrow> string option" where
  "identMatch s =
     (case s of [] \<Rightarrow> None
      | c # cs \<Rightarrow> if identStart c then Some (c # takeWhile identChar cs) else None)"

text \<open>\<open>regex.exec(line)\<close> with \<open>lastIndex = i\<close>: the first position from \<open>i\<close> on where the
  pattern matches, and the word matched there.\<close>
function execIdent :: "string \<Rightarrow> nat \<Rightarrow> (nat \<times> string) option" where
  "execIdent l i =
     (if length l < i then None
      else (case identMatch (drop i l) of
              Some w \<Rightarrow> Some (i, w)
            | None \<Rightarrow> execIdent l (Suc i)))"
  by pat_completeness auto
termination
  by (relation "measure (\<lambda>(l, i). Suc (length l) - i)") auto

declare execIdent.simps [simp del]

lemma drop_eq_ConsD:
  assumes "drop i l = c # cs"
  shows "i < length l \<and> l ! i = c \<and> drop (Suc i) l = cs"
proof -
  have i: "i < length l" using assms by (cases "i < length l") auto
  from Cons_nth_drop_Suc[OF i] assms show ?thesis using i by simp
qed

lemma identMatch_SomeD:
  assumes "identMatch (drop i l) = Some w"
  shows "i < length l \<and> identStart (l ! i) \<and> w = l ! i # takeWhile identChar (drop (Suc i) l)"
proof (cases "drop i l")
  case Nil
  with assms show ?thesis by (simp add: identMatch_def)
next
  case (Cons c cs)
  from drop_eq_ConsD[OF Cons] assms Cons show ?thesis
    by (auto simp: identMatch_def split: if_splits)
qed

lemma identMatch_NoneD:
  assumes "identMatch (drop i l) = None" and "i < length l"
  shows "\<not> identStart (l ! i)"
proof (cases "drop i l")
  case Nil
  with assms show ?thesis by simp
next
  case (Cons c cs)
  from drop_eq_ConsD[OF Cons] assms Cons show ?thesis
    by (auto simp: identMatch_def split: if_splits)
qed

lemma execIdent_SomeD:
  "execIdent l i = Some (s, w) \<Longrightarrow>
     i \<le> s \<and> s < length l \<and> identStart (l ! s)
     \<and> (\<forall>j. i \<le> j \<and> j < s \<longrightarrow> \<not> identStart (l ! j))
     \<and> w = l ! s # takeWhile identChar (drop (Suc s) l)"
proof (induction l i rule: execIdent.induct)
  case (1 l i)
  show ?case
  proof (cases "identMatch (drop i l)")
    case None
    with "1.prems" have le: "\<not> length l < i" and nxt: "execIdent l (Suc i) = Some (s, w)"
      by (auto simp: execIdent.simps[of l i] split: if_splits)
    from "1.IH"[OF le None nxt] have ih: "Suc i \<le> s" "s < length l" "identStart (l ! s)"
      "\<forall>j. Suc i \<le> j \<and> j < s \<longrightarrow> \<not> identStart (l ! j)"
      "w = l ! s # takeWhile identChar (drop (Suc s) l)" by auto
    have "\<not> identStart (l ! i)" using identMatch_NoneD[OF None] ih by simp
    then have "\<forall>j. i \<le> j \<and> j < s \<longrightarrow> \<not> identStart (l ! j)"
      using ih(4) by (metis Suc_leI le_neq_implies_less)
    with ih show ?thesis by simp
  next
    case (Some w')
    with "1.prems" have "s = i" "w = w'"
      by (auto simp: execIdent.simps[of l i] split: if_splits)
    with identMatch_SomeD[OF Some] show ?thesis by auto
  qed
qed

lemma execIdent_NoneD:
  "execIdent l i = None \<Longrightarrow> i \<le> j \<Longrightarrow> j < length l \<Longrightarrow> \<not> identStart (l ! j)"
proof (induction l i rule: execIdent.induct)
  case (1 l i)
  from "1.prems" have le: "\<not> length l < i" by simp
  from "1.prems"(1) le have None: "identMatch (drop i l) = None"
    and nxt: "execIdent l (Suc i) = None"
    by (auto simp: execIdent.simps[of l i] split: if_splits option.splits)
  show ?case
  proof (cases "j = i")
    case True
    with identMatch_NoneD[OF None] "1.prems" show ?thesis by simp
  next
    case False
    with "1.prems" have "Suc i \<le> j" by simp
    from "1.IH"[OF le None nxt this "1.prems"(3)] show ?thesis .
  qed
qed

lemma execIdent_end:
  assumes "execIdent l i = Some (s, w)"
  shows "s + length w \<le> length l" and "0 < length w"
proof -
  from execIdent_SomeD[OF assms] have s: "s < length l"
    and w: "w = l ! s # takeWhile identChar (drop (Suc s) l)" by auto
  have "length (takeWhile identChar (drop (Suc s) l)) \<le> length l - Suc s"
    by (metis length_drop length_takeWhile_le)
  with s w show "s + length w \<le> length l" by simp
  from w show "0 < length w" by simp
qed

text \<open>The \<open>while\<close> loop of \<open>getWordAtPosition\<close> from \<open>lastIndex = i\<close>; after a match
  that does not hold \<open>char\<close>, \<open>lastIndex\<close> is the end of that match.\<close>
function wordLoop :: "string \<Rightarrow> nat \<Rightarrow> nat \<Rightarrow> string option" where
  "wordLoop l char i =
     (case execIdent l i of
        None \<Rightarrow> None
      | Some (start, w) \<Rightarrow>
          (let end = start + length w
           in if start \<le> char \<and> char \<le> end then Some w else wordLoop l char end))"
  by pat_completeness auto
termination
proof (relation "measure (\<lambda>(l, c, i). Suc (length l) - i)", goal_cases)
  case 1
  show ?case by simp
next
  case (2 l char i x2 start w xa)
  then have e: "execIdent l i = Some (start, w)" by simp
  from execIdent_SomeD[OF e] execIdent_end[OF e] 2 show ?case by auto
qed

declare wordLoop.simps [simp del]

definition getWordAtPosition :: "string \<Rightarrow> nat \<Rightarrow> string option" where
  "getWordAtPosition l char = wordLoop l char 0"


text \<open>Identifier syntax: a letter or an underscore, then letters, digits and underscores.\<close>
definition isIdentifier :: "string \<Rightarrow> bool" where
  "isIdentifier w = (w \<noteq> [] \<and> identStart (hd w) \<and> list_all identChar (tl w))"

text \<open>The columns \<open>[s, e)\<close> of the line hold a maximal identifier run: the text there is an
  identifier, and no longer stretch of the line to the left or to the right is one.\<close>
definition identRun :: "string \<Rightarrow> nat \<Rightarrow> nat \<Rightarrow> bool" where
  "identRun l s e =
     (s < e \<and> e \<le> length l \<and> isIdentifier (slice l s e)
      \<and> list_all (\<lambda>s'. \<not> isIdentifier (slice l s' e)) [0..<s]
      \<and> list_all (\<lambda>e'. \<not> isIdentifier (slice l s e')) [Suc e..<Suc (length l)])"

section \<open>rules/functions.ts: checkFunctionSpaces\<close>

record Position =
  line :: nat
  character :: nat

record Range =
  rangeStart :: Position
  rangeEnd :: Position

datatype DiagnosticSeverity = Error | Warning | Information | Hint

record Diagnostic =
  severity :: DiagnosticSeverity
  range :: Range
  message :: string
  source :: string

definition Position_create :: "nat \<Rightarrow> nat \<Rightarrow> Position" where
  "Position_create l c = \<lparr>line = l, character = c\<rparr>"

definition Range_create :: "Position \<Rightarrow> Position \<Rightarrow> Range" where
  "Range_create s e = \<lparr>rangeStart = s, rangeEnd = e\<rparr>"

text \<open>\<open>/^\s*\/\//.test(line)\<close>\<close>
definition isLineComment :: "string \<Rightarrow> bool" where
  "isLineComment l = (take 2 (dropWhile isSpace l) = ''//'')"

text \<open>\<open>line.replace(/\/\/.*$/, '')\<close>: without the \<open>m\<close> flag \<open>$\<close> is the end of the
  string, and \<open>.\<close> stops at a line terminator, so the first \<open>//\<close> with no line terminator
  after it is removed together with the rest of the line.\<close>
fun removeLineComment :: "string \<Rightarrow> string" where
  "removeLineComment [] = []"
| "removeLineComment (c # cs) =
     (if take 2 (c # cs) = ''//'' \<and> list_all dotChar (drop 1 cs) then []
      else c # removeLineComment cs)"

text \<open>Whether position \<open>i\<close> of the line holds a word character (no character, no word
  character).\<close>
definition wordAt :: "string \<Rightarrow> nat \<Rightarrow> bool" where
  "wordAt l i = (i < length l \<and> identChar (l ! i))"

text \<open>\<open>\b\<close> at position \<open>i\<close>: exactly one of the characters before and after is a word
  character.\<close>
definition wordBoundary :: "string \<Rightarrow> nat \<Rightarrow> bool" where
  "wordBoundary l i = ((0 < i \<and> wordAt l (i - 1)) \<noteq> wordAt l i)"

text \<open>
  \<open>/\b([A-Za-z_][A-Za-z0-9_]*)\s*\(/\<close> at position \<open>i\<close>: the captured identifier and the
  index after the match. Both loops are greedy, and a shorter identifier or a shorter run of
  white space is followed by a character of the same class, never by the parenthesis, so
  backtracking finds nothing more.
\<close>
definition callStartAt :: "string \<Rightarrow> nat \<Rightarrow> (string \<times> nat) option" where
  "callStartAt l i =
     (let rest = drop i l in
      if wordBoundary l i \<and> rest \<noteq> [] \<and> identStart (hd rest) then
        let functionName = hd rest # takeWhile identChar (tl rest);
            afterName = dropWhile identChar (tl rest);
            afterSpace = dropWhile isSpace afterName
        in if take 1 afterSpace = ''(''
           then Some (functionName, Suc (length l - length afterSpace))
           else None
      else None)"

lemma callStartAt_bounds:
  assumes "callStartAt l i = Some (name, e)"
  shows "i < e \<and> e \<le> length l"
proof -
  let ?rest = "drop i l"
  let ?after = "dropWhile isSpace (dropWhile identChar (tl ?rest))"
  from assms have ne: "?rest \<noteq> []" and e: "e = Suc (length l - length ?after)"
    and par: "take 1 ?after = ''(''"
    by (auto simp: callStartAt_def Let_def split: if_splits)
  have "length ?after \<le> length (tl ?rest)"
    by (meson dual_order.trans length_dropWhile_le)
  moreover have "length (tl ?rest) < length ?rest" using ne by (cases ?rest) auto
  moreover have "length ?rest = length l - i" by simp
  moreover have "i < length l" using ne by simp
  moreover have "0 < length ?after" using par by (cases ?after) auto
  ultimately show ?thesis using e by linarith
qed

text \<open>\<open>callStartPattern.exec(line)\<close> with \<open>lastIndex = i\<close>: the first position from \<open>i\<close>
  on where the pattern matches, as (index, identifier, new \<open>lastIndex\<close>).\<close>
function execCallStart :: "string \<Rightarrow> nat \<Rightarrow> (nat \<times> string \<times> nat) option" where
  "execCallStart l i =
     (if length l < i then None
      else (case callStartAt l i of
              Some (name, e) \<Rightarrow> Some (i, name, e)
            | None \<Rightarrow> execCallStart l (Suc i)))"
  by pat_completeness auto
termination
  by (relation "measure (\<lambda>(l, i). Suc (length l) - i)") auto

lemma execCallStart_bounds:
  "execCallStart l i = Some (idx, name, e) \<Longrightarrow> i \<le> idx \<and> idx < e \<and> e \<le> length l"
proof (induction l i rule: execCallStart.induct)
  case (1 l i)
  show ?case
  proof (cases "callStartAt l i")
    case None
    with 1 show ?thesis by (auto split: if_splits)
  next
    case (Some a)
    with 1 show ?thesis
      by (cases a) (auto split: if_splits dest: callStartAt_bounds)
  qed
qed

text \<open>The loop that looks for the closing parenthesis: \<open>cs\<close> are the characters from index
  \<open>i\<close> on, \<open>depth\<close> the counter before looking at \<open>line[i]\<close>.\<close>
fun matchParen :: "string \<Rightarrow> int \<Rightarrow> nat \<Rightarrow> nat option" where
  "matchParen [] depth i = None"
| "matchParen (c # cs) depth i =
     (let depth' = (if c = CHR ''('' then depth + 1
                    else if c = CHR '')'' then depth - 1 else depth)
      in if depth' = 0 then Some i else matchParen cs depth' (Suc i))"

definition msgBoth :: string where
  "msgBoth = ''Function arguments must have space after '' @ [CHR 0x27] @ ''('' @ [CHR 0x27]
     @ '' and before '' @ [CHR 0x27] @ '')'' @ [CHR 0x27]"

definition msgBefore :: string where
  "msgBefore = ''Expected space before '' @ [CHR 0x27] @ '')'' @ [CHR 0x27]"

definition msgAfter :: string where
  "msgAfter = ''Expected space after '' @ [CHR 0x27] @ ''('' @ [CHR 0x27]"

text \<open>The body of the \<open>while\<close> loop for one match: the diagnostics it pushes.\<close>
definition checkCall :: "nat \<Rightarrow> string \<Rightarrow> nat \<Rightarrow> string \<Rightarrow> Diagnostic list" where
  "checkCall lineNum l startChar functionName =
     (case indexOf l (CHR ''('') (startChar + length functionName) of
        None \<Rightarrow> []
      | Some openParenIdx \<Rightarrow>
         (case matchParen (drop openParenIdx l) 0 openParenIdx of
            None \<Rightarrow> []
          | Some closeParenIdx \<Rightarrow>
             (let args = slice l (openParenIdx + 1) closeParenIdx in
              if list_all isSpace args then []
              else
                let hasSpaceAfterParen = (args \<noteq> [] \<and> isSpace (hd args));
                    hasSpaceBeforeParen = (args \<noteq> [] \<and> isSpace (last args))
                in if \<not> hasSpaceAfterParen \<or> \<not> hasSpaceBeforeParen then
                     [\<lparr>severity = Warning,
                       range = Range_create (Position_create lineNum startChar)
                                 (Position_create lineNum (closeParenIdx + 1)),
                       message = (if hasSpaceAfterParen \<and> \<not> hasSpaceBeforeParen then msgBefore
                                  else if \<not> hasSpaceAfterParen \<and> hasSpaceBeforeParen then msgAfter
                                  else msgBoth),
                       source = ''afl-lsp''\<rparr>]
                   else [])))"

text \<open>The \<open>while\<close> loop over the matches of one line, from \<open>lastIndex = i\<close>. Every path
  through the body, also each \<open>continue\<close>, goes back to \<open>exec\<close> with the \<open>lastIndex\<close> the
  match left; the loop ends when \<open>exec\<close> fails, which resets \<open>lastIndex\<close> to 0 for the
  next line.\<close>
function scanCalls :: "nat \<Rightarrow> string \<Rightarrow> nat \<Rightarrow> Diagnostic list" where
  "scanCalls lineNum l i =
     (case execCallStart l i of
        None \<Rightarrow> []
      | Some (startChar, functionName, lastIndex) \<Rightarrow>
          checkCall lineNum l startChar functionName @ scanCalls lineNum l lastIndex)"
  by pat_completeness auto
termination
proof (relation "measure (\<lambda>(n, l, i). Suc (length l) - i)", goal_cases)
  case 1
  show ?case by simp
next
  case (2 lineNum l i x2 startChar y functionName lastIndex)
  then have "execCallStart l i = Some (startChar, functionName, lastIndex)" by simp
  from execCallStart_bounds[OF this] show ?case by auto
qed

text \<open>The two updates of \<open>isInCommentBlock\<close> at the head of the loop body.\<close>
definition commentStep :: "bool \<Rightarrow> string \<Rightarrow> bool" where
  "commentStep isInCommentBlock l =
     (let entered = (if str_includes l ''/*'' then True else isInCommentBlock)
      in if entered \<and> str_includes l ''*/'' then False else entered)"

text \<open>The test that skips a line.\<close>
definition skipLine :: "bool \<Rightarrow> string \<Rightarrow> bool" where
  "skipLine isInCommentBlock l =
     (isLineComment l \<or> str_includes l [dquote] \<or> isInCommentBlock)"

text \<open>The \<open>for\<close> loop over the lines, from line \<open>lineNum\<close> with the flag as it stands.\<close>
fun lintLines :: "nat \<Rightarrow> bool \<Rightarrow> string list \<Rightarrow> Diagnostic list" where
  "lintLines lineNum isInCommentBlock [] = []"
| "lintLines lineNum isInCommentBlock (l # ls) =
     (let isIn = commentStep isInCommentBlock l
      in (if skipLine isIn l then []
          else scanCalls lineNum (stripStrings (removeLineComment l)) 0)
         @ lintLines (Suc lineNum) isIn ls)"

definition checkFunctionSpaces :: "string \<Rightarrow> string \<Rightarrow> Diagnostic list" where
  "checkFunctionSpaces text uri = lintLines 0 False (splitLines text)"

section \<open>symbolTable.ts: analyzeText\<close>

text \<open>What the analysis reads of a syntax tree of the parser (acorn with the AFL plugin):
  the node type, and for the types it looks at, the fields it looks at. \<open>loc\<close> has 1-based
  lines and 0-based columns and may be absent.\<close>
record SourceLocation =
  startLine :: nat
  startColumn :: nat
  endLine :: nat
  endColumn :: nat

datatype AnyNode =
    Program "AnyNode list"
  | FunctionDeclaration "AnyNode option" "AnyNode list" "AnyNode list option"
      "SourceLocation option"
  | VariableDeclaration "AnyNode list"
  | Identifier string "SourceLocation option"
  | OtherNode

text \<open>For \<open>FunctionDeclaration\<close> the fields are \<open>id\<close>, \<open>params\<close>, \<open>body.body\<close> (absent when there
  is no body with a statement list) and \<open>loc\<close>; for \<open>VariableDeclaration\<close>, the \<open>id\<close> of each
  declarator; for \<open>Identifier\<close>, \<open>name\<close> and \<open>loc\<close>.\<close>

record Location =
  locUri :: string
  locRange :: Range

record SymbolInfo =
  name :: string
  loc :: Location
  info :: string

text \<open>A number in a template string.\<close>
fun decimal :: "nat \<Rightarrow> string" where
  "decimal n =
     (if n < 10 then [char_of (48 + n)] else decimal (n div 10) @ [char_of (48 + n mod 10)])"

declare decimal.simps [simp del]

text \<open>Whether \<open>typeof node.id.name === 'string'\<close> holds for the \<open>id\<close> of a function
  declaration.\<close>
fun hasName :: "AnyNode option \<Rightarrow> bool" where
  "hasName (Some (Identifier n l)) = True"
| "hasName _ = False"

fun analyzeNode :: "AnyNode \<Rightarrow> string \<Rightarrow> SymbolInfo list" where
  "analyzeNode (FunctionDeclaration ident params body l) uri =
     (if hasName ident \<and> l \<noteq> None then
        (case ident of None \<Rightarrow> [] | Some identifier \<Rightarrow> analyzeNode identifier uri)
        @ (case body of None \<Rightarrow> []
           | Some stmts \<Rightarrow> concat (map (\<lambda>childNode. analyzeNode childNode uri) stmts))
        @ concat (map (\<lambda>param. analyzeNode param uri) params)
      else [])"
| "analyzeNode (VariableDeclaration declarations) uri =
     concat (map (\<lambda>identifier. analyzeNode identifier uri) declarations)"
| "analyzeNode (Identifier n l) uri =
     (case l of
        None \<Rightarrow> []
      | Some nodeLoc \<Rightarrow>
          [\<lparr>name = n,
            loc = \<lparr>locUri = uri,
                   locRange = \<lparr>rangeStart = \<lparr>line = startLine nodeLoc - 1,
                                              character = startColumn nodeLoc\<rparr>,
                                rangeEnd = \<lparr>line = endLine nodeLoc - 1,
                                            character = endColumn nodeLoc\<rparr>\<rparr>\<rparr>,
            info = ''Identifier used at line '' @ decimal (startLine nodeLoc)\<rparr>])"
| "analyzeNode (Program body) uri = []"
| "analyzeNode OtherNode uri = []"

text \<open>The module state of symbolTable.ts: \<open>astMap\<close> and \<open>symbolInfoMap\<close>. A \<open>Map\<close> keeps its
  keys in insertion order and \<open>set\<close> on a present key keeps its place: an association list
  with \<open>AList.update\<close>.\<close>
record AnalysisState =
  astMap :: "(string \<times> AnyNode) list"
  symbolInfoMap :: "(string \<times> string) list"

type_synonym SymbolTable = "(string \<times> Location) list"

definition processNode ::
  "string \<Rightarrow> SymbolTable \<times> AnalysisState \<Rightarrow> AnyNode \<Rightarrow> SymbolTable \<times> AnalysisState" where
  "processNode uri acc node =
     foldl (\<lambda>(table, st) i.
              (AList.update (name i) (loc i) table,
               st\<lparr>symbolInfoMap := AList.update (name i) (info i) (symbolInfoMap st)\<rparr>))
       acc (analyzeNode node uri)"

text \<open>util.ts, \<open>getAST\<close>: the parser of the dependency, which throws on a text it cannot
  parse, inside \<open>try\<close>; the \<open>catch\<close> logs and returns \<open>null\<close>. The parser is a parameter.\<close>
datatype SyntaxError = SyntaxError

type_synonym Parser = "string \<Rightarrow> SyntaxError + AnyNode"

definition getAST :: "Parser \<Rightarrow> string \<Rightarrow> AnyNode option" where
  "getAST parse text = (case parse text of Inl e \<Rightarrow> None | Inr ast \<Rightarrow> Some ast)"

definition analyzeText ::
  "Parser \<Rightarrow> string \<Rightarrow> string \<Rightarrow> bool \<Rightarrow> AnalysisState \<Rightarrow> SymbolTable \<times> AnalysisState" where
  "analyzeText parse text uri clearCache st =
     (let cached = map_of (astMap st) uri;
          ast = (if cached = None \<or> clearCache then getAST parse text else cached)
      in case ast of
           None \<Rightarrow> ([], st)
         | Some a \<Rightarrow>
             (let st' = st\<lparr>astMap := AList.update uri a (astMap st)\<rparr>
              in case a of
                   Program body \<Rightarrow> foldl (processNode uri) ([], st') body
                 | _ \<Rightarrow> processNode uri ([], st') a))"

section \<open>server.ts\<close>

record TextDocument =
  uri :: string
  languageId :: string
  content :: string

record AflLspSettings =
  maxNumberOfProblems :: nat

text \<open>A timer of the runtime that has been set and has neither fired nor been cleared: its
  handle, the time it is due, and the document its callback holds.\<close>
record Timer =
  handle :: nat
  due :: nat
  target :: TextDocument

text \<open>
  The state of the server: the open documents of the document manager, the global
  \<open>symbolTable\<close>, the module state of symbolTable.ts, \<open>documentSettings\<close>,
  \<open>updateSymbolTimeout\<close>, and of the runtime the pending timers and the next free handle.
  \<open>recomputed\<close> is not a variable of the program: it records, in order, the documents for
  which the debounced callback has run.
\<close>
record ServerState =
  documents :: "(string \<times> TextDocument) list"
  symbolTable :: SymbolTable
  analysis :: AnalysisState
  documentSettings :: "(string \<times> AflLspSettings) list"
  updateSymbolTimeout :: "nat option"
  timers :: "Timer list"
  nextHandle :: nat
  recomputed :: "string list"

definition updateSymbolsForDocument ::
  "Parser \<Rightarrow> TextDocument \<Rightarrow> bool \<Rightarrow> ServerState \<Rightarrow> ServerState" where
  "updateSymbolsForDocument parse doc clearCache st =
     (let (symbols, a) = analyzeText parse (content doc) (uri doc) clearCache (analysis st)
      in st\<lparr>symbolTable := foldl (\<lambda>tbl (k, v). AList.update k v tbl) (symbolTable st) symbols,
            analysis := a\<rparr>)"

text \<open>\<open>clearTimeout\<close>: the timer with this handle is no longer pending; nothing happens when
  it has fired already.\<close>
definition clearTimeout :: "nat \<Rightarrow> ServerState \<Rightarrow> ServerState" where
  "clearTimeout h st = st\<lparr>timers := filter (\<lambda>t. handle t \<noteq> h) (timers st)\<rparr>"

text \<open>\<open>setTimeout(callback, delay)\<close> at time \<open>now\<close>, for the callback that updates the
  symbols of \<open>doc\<close>: the new state and the handle.\<close>
definition setTimeout :: "nat \<Rightarrow> nat \<Rightarrow> TextDocument \<Rightarrow> ServerState \<Rightarrow> ServerState \<times> nat" where
  "setTimeout now delay doc st =
     (st\<lparr>timers := timers st @ [\<lparr>handle = nextHandle st, due = now + delay, target = doc\<rparr>],
         nextHandle := Suc (nextHandle st)\<rparr>,
      nextHandle st)"

text \<open>The first handler of \<open>documents.onDidChangeContent\<close>, run at time \<open>now\<close> (milliseconds).\<close>
definition onDidChangeContent :: "nat \<Rightarrow> TextDocument \<Rightarrow> ServerState \<Rightarrow> ServerState" where
  "onDidChangeContent now doc st =
     (if languageId doc \<noteq> ''afl'' then st
      else
        let st1 = (case updateSymbolTimeout st of None \<Rightarrow> st | Some h \<Rightarrow> clearTimeout h st);
            (st2, h) = setTimeout now 2000 doc st1
        in st2\<lparr>updateSymbolTimeout := Some h\<rparr>)"

text \<open>The callback of the timer: \<open>updateSymbolsForDocument(e.document, true)\<close>.\<close>
definition timerCallback :: "Parser \<Rightarrow> TextDocument \<Rightarrow> ServerState \<Rightarrow> ServerState" where
  "timerCallback parse doc st =
     (updateSymbolsForDocument parse doc True st)\<lparr>recomputed := recomputed st @ [uri doc]\<rparr>"

text \<open>The runtime reaching time \<open>now\<close>: the pending timers that are due run, in the order
  they were set, and are pending no more. A callback sets no timer.\<close>
definition runTimers :: "Parser \<Rightarrow> nat \<Rightarrow> ServerState \<Rightarrow> ServerState" where
  "runTimers parse now st =
     foldl (\<lambda>s t. timerCallback parse (target t) s)
       (st\<lparr>timers := filter (\<lambda>t. now < due t) (timers st)\<rparr>)
       (filter (\<lambda>t. due t \<le> now) (timers st))"

text \<open>A change notification of the client that arrives at time \<open>now\<close>.\<close>
definition changeAt :: "Parser \<Rightarrow> nat \<Rightarrow> TextDocument \<Rightarrow> ServerState \<Rightarrow> ServerState" where
  "changeAt parse now doc st = onDidChangeContent now doc (runTimers parse now st)"

text \<open>\<open>documents.onDidOpen\<close>\<close>
definition onDidOpen :: "Parser \<Rightarrow> TextDocument \<Rightarrow> ServerState \<Rightarrow> ServerState" where
  "onDidOpen parse doc st =
     updateSymbolsForDocument parse doc False
       (st\<lparr>documents := AList.update (uri doc) doc (documents st)\<rparr>)"

text \<open>\<open>documents.onDidClose\<close>: the document manager forgets the document, the handler deletes
  its settings.\<close>
definition onDidClose :: "TextDocument \<Rightarrow> ServerState \<Rightarrow> ServerState" where
  "onDidClose doc st =
     st\<lparr>documents := AList.delete (uri doc) (documents st),
        documentSettings := AList.delete (uri doc) (documentSettings st)\<rparr>"

datatype CompletionItemKind = FunctionKind

record CompletionItem =
  label :: string
  kind :: CompletionItemKind
  data :: string

text \<open>\<open>connection.onCompletion\<close>\<close>
definition onCompletion :: "ServerState \<Rightarrow> CompletionItem list" where
  "onCompletion st =
     map (\<lambda>(n, l). \<lparr>label = n, kind = FunctionKind, data = n\<rparr>) (symbolTable st)"

section \<open>Text documents: positions, ranges and edits\<close>

text \<open>
  Modelled from the spec: \<open>TextDocument\<close> is the class of the dependency
  vscode-languageserver-textdocument, which is not under src/. The quick fix "reads the live
  text spanned by the diagnostic's range" (4.6), and what a range spans is fixed by the
  Language Server Protocol, which the class implements: a position is a line and a character
  offset in that line; a line ends at a line feed, at a carriage return followed by a line
  feed, or at a carriage return alone; the offset of a position is the offset of its line plus
  its character, not beyond the next line and not behind the end-of-line characters of its
  own; a position on a line after the last is the end of the text.
\<close>
definition isEOL :: "char \<Rightarrow> bool" where
  "isEOL c = (c = CR \<or> c = LF)"

text \<open>The offsets at which the lines after the first start, for the text that starts at
  offset \<open>i\<close>.\<close>
fun lineOffsetsFrom :: "nat \<Rightarrow> string \<Rightarrow> nat list" where
  "lineOffsetsFrom i [] = []"
| "lineOffsetsFrom i (c # cs) =
     (if c = CR \<and> take 1 cs = [LF] then lineOffsetsFrom (Suc i) cs
      else if isEOL c then Suc i # lineOffsetsFrom (Suc i) cs
      else lineOffsetsFrom (Suc i) cs)"

definition getLineOffsets :: "string \<Rightarrow> nat list" where
  "getLineOffsets text = 0 # lineOffsetsFrom 0 text"

function ensureBeforeEOL :: "string \<Rightarrow> nat \<Rightarrow> nat \<Rightarrow> nat" where
  "ensureBeforeEOL text offset lineOffset =
     (if lineOffset < offset \<and> offset \<le> length text \<and> isEOL (text ! (offset - 1))
      then ensureBeforeEOL text (offset - 1) lineOffset
      else offset)"
  by pat_completeness auto
termination
  by (relation "measure (\<lambda>(t, offset, l). offset)") auto

declare ensureBeforeEOL.simps [simp del]

definition offsetAt :: "string \<Rightarrow> Position \<Rightarrow> nat" where
  "offsetAt text pos =
     (let lineOffsets = getLineOffsets text in
      if length lineOffsets \<le> line pos then length text
      else
        let lineOffset = lineOffsets ! line pos in
        if character pos = 0 then lineOffset
        else
          let nextLineOffset =
                (if line pos + 1 < length lineOffsets then lineOffsets ! (line pos + 1)
                 else length text);
              offset = min (lineOffset + character pos) nextLineOffset
          in ensureBeforeEOL text offset lineOffset)"

text \<open>\<open>document.getText(range)\<close>: the text between the offsets of the two positions, taken in
  order.\<close>
definition getText :: "string \<Rightarrow> Range \<Rightarrow> string" where
  "getText text r =
     (let a = offsetAt text (rangeStart r); b = offsetAt text (rangeEnd r)
      in slice text (min a b) (max a b))"

record TextEdit =
  editRange :: Range
  newText :: string

text \<open>Modelled from the spec: the client applies a text edit, which is not code of this
  repository; by the protocol the text of the range is replaced by the new text.\<close>
definition applyTextEdit :: "string \<Rightarrow> TextEdit \<Rightarrow> string" where
  "applyTextEdit text e =
     (let a = offsetAt text (rangeStart (editRange e)); b = offsetAt text (rangeEnd (editRange e))
      in take (min a b) text @ newText e @ drop (max a b) text)"

section \<open>rules/functions.ts: fixFunctionSapces, and the code-action handler of server.ts\<close>

datatype CodeActionKind = QuickFix

record CodeAction =
  title :: string
  actionKind :: CodeActionKind
  actionDiagnostics :: "Diagnostic list"
  changes :: "(string \<times> TextEdit list) list"

record CodeActionParams =
  textDocumentUri :: string
  contextDiagnostics :: "Diagnostic list"

text \<open>\<open>text.lastIndexOf(')')\<close>, \<open>None\<close> for \<open>-1\<close>.\<close>
definition lastIndexOf :: "string \<Rightarrow> char \<Rightarrow> nat option" where
  "lastIndexOf s c =
     (if c \<in> set s then Some (length s - Suc (length (takeWhile (\<lambda>x. x \<noteq> c) (rev s))))
      else None)"

definition fixFunctionSapces ::
  "(string \<times> TextDocument) list \<Rightarrow> CodeActionParams \<Rightarrow> Diagnostic \<Rightarrow> CodeAction option" where
  "fixFunctionSapces docs params diagnostic =
     (case map_of docs (textDocumentUri params) of
        None \<Rightarrow> None
      | Some document \<Rightarrow>
          (let text = getText (content document) (range diagnostic) in
           case lastIndexOf text (CHR '')'') of
             None \<Rightarrow> None
           | Some lastParen \<Rightarrow>
               Some \<lparr>title = ''Insert space before '' @ [CHR 0x27] @ '')'' @ [CHR 0x27],
                     actionKind = QuickFix,
                     actionDiagnostics = [diagnostic],
                     changes = [(textDocumentUri params,
                                 [\<lparr>editRange = range diagnostic,
                                   newText = take lastParen text @ '' )''
                                             @ drop (lastParen + 1) text\<rparr>])]\<rparr>))"

text \<open>\<open>connection.onCodeAction\<close>\<close>
definition onCodeAction :: "(string \<times> TextDocument) list \<Rightarrow> CodeActionParams \<Rightarrow> CodeAction list" where
  "onCodeAction docs params =
     concat (map (\<lambda>diagnostic.
                    if str_includes (message diagnostic)
                         (''space before '' @ [CHR 0x27] @ '')'' @ [CHR 0x27])
                    then (case fixFunctionSapces docs params diagnostic of
                            None \<Rightarrow> [] | Some action \<Rightarrow> [action])
                    else [])
             (contextDiagnostics params))"

text \<open>Every carriage return of the text is followed by a line feed.\<close>
fun noLoneCR :: "string \<Rightarrow> bool" where
  "noLoneCR [] = True"
| "noLoneCR (c # cs) = ((c = CR \<longrightarrow> take 1 cs = [LF]) \<and> noLoneCR cs)"

section \<open>Sample data\<close>

text \<open>A document with a call on a linted line, a line comment, a line with a string, and a
  call inside a block comment.\<close>
definition sampleText :: string where
  "sampleText = ''g(b)'' @ [LF] @ ''// f(a)'' @ [LF] @ ''h('' @ [dquote] @ ''x'' @ [dquote] @ '')''
     @ [LF] @ ''/* c'' @ [LF] @ ''f(a)'' @ [LF] @ ''*/ k(z)''"

text \<open>A cache that holds the tree of \<open>x = 1;\<close> for one document, and a parser that rejects
  what it is given.\<close>
definition cachedState :: AnalysisState where
  "cachedState =
     \<lparr>astMap = [(''file:///a.afl'',
                 Program [VariableDeclaration
                   [Identifier ''x'' (Some \<lparr>startLine = 1, startColumn = 0,
                                              endLine = 1, endColumn = 1\<rparr>)]])],
      symbolInfoMap = []\<rparr>"

definition rejectingParser :: Parser where
  "rejectingParser text = Inl SyntaxError"

text \<open>A parser that returns the tree of \<open>function f(a) { b = 1; }\<close> whatever the text.\<close>
definition sampleParser :: Parser where
  "sampleParser text =
     Inr (Program [FunctionDeclaration
            (Some (Identifier ''f'' (Some \<lparr>startLine = 1, startColumn = 9,
                                            endLine = 1, endColumn = 10\<rparr>)))
            [Identifier ''a'' (Some \<lparr>startLine = 1, startColumn = 11,
                                     endLine = 1, endColumn = 12\<rparr>)]
            (Some [VariableDeclaration
                     [Identifier ''b'' (Some \<lparr>startLine = 1, startColumn = 16,
                                              endLine = 1, endColumn = 17\<rparr>)]])
            (Some \<lparr>startLine = 1, startColumn = 0, endLine = 1, endColumn = 25\<rparr>)])"

definition emptyState :: ServerState where
  "emptyState =
     \<lparr>documents = [], symbolTable = [], analysis = \<lparr>astMap = [], symbolInfoMap = []\<rparr>,
      documentSettings = [], updateSymbolTimeout = None, timers = [], nextHandle = 0,
      recomputed = []\<rparr>"

definition docA :: TextDocument where
  "docA = \<lparr>uri = ''file:///a.afl'', languageId = ''afl'', content = ''function f(a) { b = 1; }''\<rparr>"

definition docB :: TextDocument where
  "docB = \<lparr>uri = ''file:///b.afl'', languageId = ''afl'', content = ''y = 2;''\<rparr>"

definition docT :: TextDocument where
  "docT = \<lparr>uri = ''file:///notes.txt'', languageId = ''plaintext'', content = ''f(a)''\<rparr>"

text \<open>An open document with one call that lacks the space before its closing parenthesis,
  and a document whose first line ends at a carriage return alone.\<close>
definition fixDoc :: TextDocument where
  "fixDoc = \<lparr>uri = ''file:///a.afl'', languageId = ''afl'',
             content = ''x = 1;'' @ [CR, LF] @ ''y = g( f( h(a)), 2 ); // note'' @ [LF] @ ''z = 3;''\<rparr>"

definition loneCRDoc :: TextDocument where
  "loneCRDoc = \<lparr>uri = ''file:///a.afl'', languageId = ''afl'', content = [CR] @ ''f( a)''\<rparr>"

section \<open>Notification traces\<close>

text \<open>Change notifications for documents of language \<open>afl\<close>, each less than 2000 ms after the
  one before it; \<open>t0\<close> is the time of the notification before the first of the list.\<close>
fun burst :: "nat \<Rightarrow> (nat \<times> TextDocument) list \<Rightarrow> bool" where
  "burst t0 [] = True"
| "burst t0 ((t, d) # evs) =
     (t0 \<le> t \<and> t < t0 + 2000 \<and> languageId d = ''afl'' \<and> burst t evs)"

text \<open>The notifications of a list, in order, each at its time.\<close>
definition changesAt :: "Parser \<Rightarrow> (nat \<times> TextDocument) list \<Rightarrow> ServerState \<Rightarrow> ServerState" where
  "changesAt parse evs st = foldl (\<lambda>s (t, d). changeAt parse t d s) st evs"

declare stripStrings.simps [simp del]
declare execCallStart.simps [simp del]
declare scanCalls.simps [simp del]

text \<open>The value of \<open>isInCommentBlock\<close> against which line \<open>n\<close> is tested: the flag after
  the updates for the lines 0 to \<open>n\<close>.\<close>
definition commentStateAt :: "string list \<Rightarrow> nat \<Rightarrow> bool" where
  "commentStateAt ls n = foldl commentStep False (take (Suc n) ls)"

text \<open>The diagnostic the rule pushes for a call that starts at \<open>startChar\<close> and closes at
  \<open>closeParenIdx\<close>.\<close>
definition spacingDiagnostic :: "nat \<Rightarrow> nat \<Rightarrow> nat \<Rightarrow> string \<Rightarrow> Diagnostic" where
  "spacingDiagnostic lineNum startChar closeParenIdx msg =
     \<lparr>severity = Warning,
      range = \<lparr>rangeStart = \<lparr>line = lineNum, character = startChar\<rparr>,
               rangeEnd = \<lparr>line = lineNum, character = closeParenIdx + 1\<rparr>\<rparr>,
      message = msg,
      source = ''afl-lsp''\<rparr>"

section \<open>The matches of a line, call sites, and block comments read character by character\<close>

text \<open>The matches the \<open>while\<close> loop of one line goes through, from \<open>lastIndex = i\<close>: each as
  (index, identifier, \<open>lastIndex\<close> after it). It is the loop of \<open>scanCalls\<close> with the body
  left out.\<close>
function detectedCalls :: "string \<Rightarrow> nat \<Rightarrow> (nat \<times> string \<times> nat) list" where
  "detectedCalls l i =
     (case execCallStart l i of
        None \<Rightarrow> []
      | Some (startChar, functionName, lastIndex) \<Rightarrow>
          (startChar, functionName, lastIndex) # detectedCalls l lastIndex)"
  by pat_completeness auto
termination
proof (relation "measure (\<lambda>(l, i). Suc (length l) - i)", goal_cases)
  case 1
  show ?case by simp
next
  case (2 l i x2 startChar y functionName lastIndex)
  then have "execCallStart l i = Some (startChar, functionName, lastIndex)" by simp
  from execCallStart_bounds[OF this] show ?case by auto
qed

declare detectedCalls.simps [simp del]

text \<open>A call detected by \<open>checkFunctionSpaces\<close> in a text: line \<open>n\<close> of the text is not
  skipped, \<open>l\<close> is what the rule scans of it (the line without its line comment, through
  \<open>stripStrings\<close>), and the loop goes through the match \<open>call\<close> there.\<close>
definition detectedOn :: "string \<Rightarrow> nat \<Rightarrow> string \<Rightarrow> nat \<times> string \<times> nat \<Rightarrow> bool" where
  "detectedOn tx n l call =
     (n < length (splitLines tx)
      \<and> \<not> skipLine (commentStateAt (splitLines tx) n) (splitLines tx ! n)
      \<and> l = stripStrings (removeLineComment (splitLines tx ! n))
      \<and> call \<in> set (detectedCalls l 0))"

text \<open>A call site in a line, said without the pattern and whatever stands around it: an
  identifier in the columns \<open>[s, k)\<close> that does not continue a word, white space in the
  columns \<open>[k, m)\<close>, and an opening parenthesis at \<open>m\<close>.\<close>
definition callSite :: "string \<Rightarrow> nat \<Rightarrow> nat \<Rightarrow> nat \<Rightarrow> bool" where
  "callSite l s k m =
     (s < k \<and> k \<le> m \<and> m < length l
      \<and> (s = 0 \<or> \<not> identChar (l ! (s - 1)))
      \<and> isIdentifier (slice l s k)
      \<and> list_all isSpace (slice l k m)
      \<and> l ! m = CHR ''('')"

text \<open>Block comments as the words "inside a block comment" have them, not as the code tracks
  them: read character by character, \<open>/*\<close> opens a comment outside of one and \<open>*/\<close> closes it
  inside of one, and the two characters of a marker belong to the comment. \<open>blockCommentMask\<close>
  tells of each character of a line whether it lies in a block comment, given whether the
  line starts in one; \<open>blockCommentAfter\<close> is the state at the end of the line. A marker is
  two adjacent characters of one line, so the lines can be read one after the other. Line
  comments and string literals are not looked at.\<close>
fun blockCommentMask :: "bool \<Rightarrow> string \<Rightarrow> bool list" where
  "blockCommentMask inside [] = []"
| "blockCommentMask inside [c] = [inside]"
| "blockCommentMask inside (c # d # cs) =
     (if inside
      then (if c = CHR ''*'' \<and> d = CHR ''/''
            then True # True # blockCommentMask False cs
            else True # blockCommentMask True (d # cs))
      else (if c = CHR ''/'' \<and> d = CHR ''*''
            then True # True # blockCommentMask True cs
            else False # blockCommentMask False (d # cs)))"

fun blockCommentAfter :: "bool \<Rightarrow> string \<Rightarrow> bool" where
  "blockCommentAfter inside [] = inside"
| "blockCommentAfter inside [c] = inside"
| "blockCommentAfter inside (c # d # cs) =
     (if inside
      then (if c = CHR ''*'' \<and> d = CHR ''/''
            then blockCommentAfter False cs
            else blockCommentAfter True (d # cs))
      else (if c = CHR ''/'' \<and> d = CHR ''*''
            then blockCommentAfter True cs
            else blockCommentAfter False (d # cs)))"

text \<open>For each line, whether it starts in a block comment, and the mask of its characters.\<close>
fun blockCommentMasks :: "bool \<Rightarrow> string list \<Rightarrow> (bool \<times> bool list) list" where
  "blockCommentMasks inside [] = []"
| "blockCommentMasks inside (l # ls) =
     (inside, blockCommentMask inside l) # blockCommentMasks (blockCommentAfter inside l) ls"

text \<open>Line \<open>n\<close> of the text lies inside a block comment: it starts in one and each of its
  characters lies in one.\<close>
definition insideBlockComment :: "string \<Rightarrow> nat \<Rightarrow> bool" where
  "insideBlockComment tx n =
     (n < length (splitLines tx)
      \<and> fst (blockCommentMasks False (splitLines tx) ! n)
      \<and> list_all (\<lambda>b. b) (snd (blockCommentMasks False (splitLines tx) ! n)))"

text \<open>A text whose first line closes one block comment and opens another, with a call on
  the line after it; a text whose block comment closes after a call on the same line; and a
  text with a call without arguments and a call with one, both in the arguments of a third.\<close>
definition reopenedComment :: string where
  "reopenedComment = ''/* a */ /* b'' @ [LF] @ ''f(a)'' @ [LF] @ ''*/''"

definition closedOnCallLine :: string where
  "closedOnCallLine = ''/*'' @ [LF] @ ''f(a) */''"

definition nestedCallText :: string where
  "nestedCallText = ''x = 1;'' @ [LF] @ ''f( g( ), h(a) )''"

section \<open>Properties of the lint rule\<close>

lemma checkCall_cases:
  assumes "indexOf l (CHR ''('') (s + length fname) = Some openIdx"
    and "matchParen (drop openIdx l) 0 openIdx = Some closeIdx"
  shows "checkCall n l s fname =
     (let args = slice l (openIdx + 1) closeIdx in
      if list_all isSpace args then []
      else if isSpace (hd args) \<and> isSpace (last args) then []
      else [spacingDiagnostic n s closeIdx
             (if isSpace (hd args) then msgBefore
              else if isSpace (last args) then msgAfter else msgBoth)])"
proof -
  have ne: "\<not> list_all isSpace args \<Longrightarrow> args \<noteq> []" for args by auto
  show ?thesis
    using assms ne[of "slice l (openIdx + 1) closeIdx"]
    by (simp add: checkCall_def Let_def spacingDiagnostic_def Range_create_def
        Position_create_def)
qed

lemma checkCall_line:
  "d \<in> set (checkCall n l s fname) \<Longrightarrow>
     line (rangeStart (range d)) = n \<and> character (rangeStart (range d)) = s"
  by (auto simp: checkCall_def Let_def Range_create_def Position_create_def
      split: option.splits if_splits)

lemma scanCalls_step:
  "execCallStart l i = Some (s, fname, lastIndex) \<Longrightarrow>
     scanCalls n l i = checkCall n l s fname @ scanCalls n l lastIndex"
  by (subst scanCalls.simps) simp

lemma scanCalls_line:
  "d \<in> set (scanCalls n l i) \<Longrightarrow> line (rangeStart (range d)) = n"
proof (induction n l i rule: scanCalls.induct)
  case (1 lineNum l i)
  show ?case
  proof (cases "execCallStart l i")
    case None
    with "1.prems" show ?thesis by (simp add: scanCalls.simps)
  next
    case (Some a)
    obtain s fname lastIndex where a: "a = (s, fname, lastIndex)" by (cases a) auto
    from "1.prems" Some a
    have "d \<in> set (checkCall lineNum l s fname) \<or> d \<in> set (scanCalls lineNum l lastIndex)"
      by (simp add: scanCalls_step)
    then show ?thesis
      using "1.IH"[OF Some a[symmetric] refl] checkCall_line by blast
  qed
qed

lemma lintLines_line_ge:
  "d \<in> set (lintLines k b ls) \<Longrightarrow> k \<le> line (rangeStart (range d))"
proof (induction ls arbitrary: k b)
  case Nil
  then show ?case by simp
next
  case (Cons l ls)
  then show ?case
    by (fastforce simp: Let_def split: if_splits dest: scanCalls_line)
qed

lemma lintLines_skipped:
  assumes "j < length ls"
    and "skipLine (foldl commentStep b (take (Suc j) ls)) (ls ! j)"
    and "d \<in> set (lintLines k b ls)"
  shows "line (rangeStart (range d)) \<noteq> k + j"
  using assms
proof (induction ls arbitrary: k b j)
  case Nil
  then show ?case by simp
next
  case (Cons l ls)
  show ?case
  proof (cases j)
    case 0
    with Cons.prems have "d \<in> set (lintLines (Suc k) (commentStep b l) ls)"
      by (simp add: Let_def)
    from lintLines_line_ge[OF this] 0 show ?thesis by simp
  next
    case (Suc j')
    from Cons.prems Suc have
      "d \<in> set (scanCalls k (stripStrings (removeLineComment l)) 0)
       \<or> d \<in> set (lintLines (Suc k) (commentStep b l) ls)"
      by (auto simp: Let_def split: if_splits)
    then show ?thesis
    proof
      assume "d \<in> set (scanCalls k (stripStrings (removeLineComment l)) 0)"
      from scanCalls_line[OF this] Suc show ?thesis by simp
    next
      assume d: "d \<in> set (lintLines (Suc k) (commentStep b l) ls)"
      have "line (rangeStart (range d)) \<noteq> Suc k + j'"
        using Cons.prems Suc by (intro Cons.IH[OF _ _ d]) simp_all
      with Suc show ?thesis by simp
    qed
  qed
qed

subsection \<open>The comment-block flag\<close>

lemma commentStep_opens:
  "str_includes l ''/*'' \<Longrightarrow> \<not> str_includes l ''*/'' \<Longrightarrow> commentStep b l"
  by (simp add: commentStep_def)

lemma commentStep_stays: "\<not> str_includes l ''*/'' \<Longrightarrow> commentStep True l"
  by (simp add: commentStep_def)

lemma foldl_commentStep_stays:
  "\<forall>l \<in> set ls. \<not> str_includes l ''*/'' \<Longrightarrow> foldl commentStep True ls"
  by (induction ls) (simp_all add: commentStep_stays)

text \<open>The flag is set on the line that opens a block comment without closing it and on the
  lines after it, up to the first line that holds the closing marker.\<close>
lemma commentStateAt_block:
  assumes "i \<le> n" and "n < length ls"
    and "str_includes (ls ! i) ''/*''"
    and "\<forall>j. i \<le> j \<and> j \<le> n \<longrightarrow> \<not> str_includes (ls ! j) ''*/''"
  shows "commentStateAt ls n"
proof -
  have il: "i < length ls" using assms(1,2) by simp
  have "take (Suc n) ls = take i ls @ ls ! i # take (n - i) (drop (Suc i) ls)"
  proof -
    have "take (Suc n) ls = take (i + Suc (n - i)) ls" using assms(1) by simp
    also have "\<dots> = take i ls @ take (Suc (n - i)) (drop i ls)" by (rule take_add)
    also have "drop i ls = ls ! i # drop (Suc i) ls" using il by (simp add: Cons_nth_drop_Suc)
    finally show ?thesis by simp
  qed
  then have "commentStateAt ls n
      = foldl commentStep (commentStep (foldl commentStep False (take i ls)) (ls ! i))
          (take (n - i) (drop (Suc i) ls))"
    by (simp add: commentStateAt_def)
  moreover have "commentStep (foldl commentStep False (take i ls)) (ls ! i)"
    using assms(3,4) assms(1) by (intro commentStep_opens) auto
  moreover have "\<forall>l \<in> set (take (n - i) (drop (Suc i) ls)). \<not> str_includes l ''*/''"
  proof
    fix l assume "l \<in> set (take (n - i) (drop (Suc i) ls))"
    then obtain k where k: "k < n - i" "k < length ls - Suc i"
      "l = take (n - i) (drop (Suc i) ls) ! k"
      by (auto simp: in_set_conv_nth)
    then have "l = ls ! (Suc i + k)" by simp
    moreover have "i \<le> Suc i + k \<and> Suc i + k \<le> n" using k(1) by simp
    ultimately show "\<not> str_includes l ''*/''" using assms(4) by blast
  qed
  ultimately show ?thesis using foldl_commentStep_stays by simp
qed

subsection \<open>Both comment markers on one line\<close>



section \<open>Properties of the position resolver\<close>

lemma identStart_identChar: "identStart c \<Longrightarrow> identChar c"
  by (auto simp: identStart_def identChar_def)

lemma slice_nth: "a + k < b \<Longrightarrow> b \<le> length l \<Longrightarrow> slice l a b ! k = l ! (a + k)"
  by (simp add: slice_def)

lemma length_slice: "b \<le> length l \<Longrightarrow> length (slice l a b) = b - a"
  by (simp add: slice_def)

lemma isIdentifier_slice:
  assumes "a < b" and "b \<le> length l"
  shows "isIdentifier (slice l a b)
     \<longleftrightarrow> identStart (l ! a) \<and> (\<forall>j. a < j \<and> j < b \<longrightarrow> identChar (l ! j))"
proof -
  let ?w = "slice l a b"
  have len: "length ?w = b - a" using assms by (simp add: length_slice)
  then have ne: "?w \<noteq> []" using assms by auto
  have hd: "hd ?w = l ! a"
    using slice_nth[of a 0 b l] assms ne by (simp add: hd_conv_nth)
  have nth: "tl ?w ! k = l ! (a + Suc k)" if "a + Suc k < b" for k
  proof -
    have "tl ?w ! k = ?w ! Suc k" using that len by (simp add: nth_tl)
    also have "\<dots> = l ! (a + Suc k)" by (rule slice_nth[OF that assms(2)])
    finally show ?thesis .
  qed
  have tl: "list_all identChar (tl ?w) \<longleftrightarrow> (\<forall>j. a < j \<and> j < b \<longrightarrow> identChar (l ! j))"
  proof
    assume h: "list_all identChar (tl ?w)"
    show "\<forall>j. a < j \<and> j < b \<longrightarrow> identChar (l ! j)"
    proof (intro allI impI)
      fix j assume j: "a < j \<and> j < b"
      define k where "k = j - Suc a"
      have k: "a + Suc k = j" using j by (simp add: k_def)
      have "k < b - Suc a" using j unfolding k_def by arith
      then have "k < length (tl ?w)" using len by simp
      with h have "identChar (tl ?w ! k)" unfolding list_all_length by blast
      moreover have "tl ?w ! k = l ! (a + Suc k)" using j k by (intro nth) simp
      ultimately show "identChar (l ! j)" using k by simp
    qed
  next
    assume h: "\<forall>j. a < j \<and> j < b \<longrightarrow> identChar (l ! j)"
    show "list_all identChar (tl ?w)"
      unfolding list_all_length
    proof (intro allI impI)
      fix k assume k: "k < length (tl ?w)"
      then have kb: "a + Suc k < b" using len by simp
      then have "identChar (l ! (a + Suc k))" using h by simp
      then show "identChar (tl ?w ! k)" using nth[OF kb] by simp
    qed
  qed
  show ?thesis using ne hd tl by (simp add: isIdentifier_def)
qed

lemma list_all_below: "list_all P [0..<s] \<longleftrightarrow> (\<forall>s'. s' < s \<longrightarrow> P s')"
  unfolding list_all_iff set_upt by auto

lemma list_all_above:
  "list_all P [Suc e..<Suc n] \<longleftrightarrow> (\<forall>e'. e < e' \<and> e' \<le> n \<longrightarrow> P e')"
proof -
  have "\<And>e'. (e' \<in> {Suc e..<Suc n}) = (e < e' \<and> e' \<le> n)" by auto
  then show ?thesis unfolding list_all_iff set_upt by blast
qed

lemma identRun_iff:
  "identRun l s e \<longleftrightarrow>
     s < e \<and> e \<le> length l \<and> isIdentifier (slice l s e)
     \<and> (\<forall>s'. s' < s \<longrightarrow> \<not> isIdentifier (slice l s' e))
     \<and> (\<forall>e'. e < e' \<and> e' \<le> length l \<longrightarrow> \<not> isIdentifier (slice l s e'))"
  unfolding identRun_def list_all_below list_all_above ..

lemma identRun_D:
  assumes "identRun l s e"
  shows "s < e" "e \<le> length l" "identStart (l ! s)"
    "\<And>j. s < j \<Longrightarrow> j < e \<Longrightarrow> identChar (l ! j)"
    "e < length l \<Longrightarrow> \<not> identChar (l ! e)"
    "\<And>s'. s' < s \<Longrightarrow> identStart (l ! s') \<Longrightarrow> \<exists>j. s' < j \<and> j < e \<and> \<not> identChar (l ! j)"
proof -
  from assms show se: "s < e" and el: "e \<le> length l" by (auto simp: identRun_iff)
  from assms have "isIdentifier (slice l s e)" by (simp add: identRun_iff)
  then have id: "identStart (l ! s)" "\<forall>j. s < j \<and> j < e \<longrightarrow> identChar (l ! j)"
    using isIdentifier_slice[OF se el] by auto
  from id show "identStart (l ! s)" by simp
  from id show "\<And>j. s < j \<Longrightarrow> j < e \<Longrightarrow> identChar (l ! j)" by simp
  show "\<not> identChar (l ! e)" if "e < length l"
  proof
    assume c: "identChar (l ! e)"
    from assms that have "\<not> isIdentifier (slice l s (Suc e))"
      by (simp add: identRun_iff)
    moreover have "isIdentifier (slice l s (Suc e))"
      using isIdentifier_slice[of s "Suc e" l] se that id c
      by (auto simp: less_Suc_eq)
    ultimately show False by simp
  qed
  show "\<exists>j. s' < j \<and> j < e \<and> \<not> identChar (l ! j)" if "s' < s" "identStart (l ! s')" for s'
  proof -
    from assms that have "\<not> isIdentifier (slice l s' e)"
      by (simp add: identRun_iff)
    then show ?thesis
      using isIdentifier_slice[of s' e l] se el that by auto
  qed
qed

lemma identRun_I:
  assumes "s < e" "e \<le> length l" "identStart (l ! s)"
    "\<And>j. s < j \<Longrightarrow> j < e \<Longrightarrow> identChar (l ! j)"
    "e < length l \<Longrightarrow> \<not> identChar (l ! e)"
    "\<And>s'. s' < s \<Longrightarrow> identStart (l ! s') \<Longrightarrow> \<exists>j. s' < j \<and> j < e \<and> \<not> identChar (l ! j)"
  shows "identRun l s e"
proof -
  have 1: "isIdentifier (slice l s e)"
    using isIdentifier_slice[OF assms(1,2)] assms(3,4) by simp
  have 2: "\<not> isIdentifier (slice l s' e)" if "s' < s" for s'
    using isIdentifier_slice[of s' e l] assms(1,2) assms(6)[OF that] that by auto
  have 3: "\<not> isIdentifier (slice l s e')" if "e < e'" "e' \<le> length l" for e'
    using isIdentifier_slice[of s e' l] assms(1,5) that by auto
  show ?thesis
    using assms(1,2) 1 2 3 by (auto simp: identRun_iff)
qed


text \<open>The word \<open>exec\<close> returns at \<open>s\<close> runs up to the first character that cannot continue
  an identifier.\<close>
lemma takeWhile_nth_holds: "k < length (takeWhile P xs) \<Longrightarrow> P (xs ! k)"
proof -
  assume k: "k < length (takeWhile P xs)"
  then have "takeWhile P xs ! k \<in> set (takeWhile P xs)" by (rule nth_mem)
  then have "P (takeWhile P xs ! k)" by (rule set_takeWhileD[THEN conjunct2])
  then show "P (xs ! k)" using k by (simp add: takeWhile_nth)
qed

lemma execIdent_word:
  assumes "execIdent l i = Some (s, w)"
  defines "e \<equiv> s + length w"
  shows "s < e" "e \<le> length l" "w = slice l s e"
    "\<And>j. s < j \<Longrightarrow> j < e \<Longrightarrow> identChar (l ! j)"
    "e < length l \<Longrightarrow> \<not> identChar (l ! e)"
proof -
  let ?xs = "drop (Suc s) l"
  let ?n = "length (takeWhile identChar ?xs)"
  from execIdent_SomeD[OF assms(1)] have s: "s < length l"
    and w: "w = l ! s # takeWhile identChar ?xs" by auto
  have e: "e = Suc s + ?n" using w by (simp add: e_def)
  have n: "?n \<le> length l - Suc s"
    using length_takeWhile_le[of identChar ?xs] by simp
  show "s < e" using e by simp
  show el: "e \<le> length l" using e n s by simp
  have "slice l s e = take (Suc ?n) (l ! s # ?xs)"
    unfolding slice_def Cons_nth_drop_Suc[OF s] using e by simp
  also have "\<dots> = l ! s # take ?n ?xs" by simp
  also have "take ?n ?xs = takeWhile identChar ?xs"
    by (rule takeWhile_eq_take[symmetric])
  finally show "w = slice l s e" using w by simp
  show "identChar (l ! j)" if "s < j" "j < e" for j
  proof -
    define k where "k = j - Suc s"
    have k: "j = Suc s + k" using that(1) unfolding k_def by arith
    then have "k < ?n" using that e by simp
    then have "identChar (?xs ! k)" by (rule takeWhile_nth_holds)
    then show ?thesis using k s el that by simp
  qed
  show "\<not> identChar (l ! e)" if "e < length l"
  proof -
    have "?n < length ?xs" using that e by simp
    from nth_length_takeWhile[OF this] show ?thesis using e that by simp
  qed
qed

lemma wordLoop_hit:
  "identRun l s e \<Longrightarrow> s \<le> c \<Longrightarrow> c \<le> e \<Longrightarrow> i \<le> s \<Longrightarrow> wordLoop l c i = Some (slice l s e)"
proof (induction l c i rule: wordLoop.induct)
  case (1 l c i)
  note run = identRun_D[OF "1.prems"(1)]
  have sl: "s < length l" using run(1,2) by simp
  obtain s0 w0 where ex: "execIdent l i = Some (s0, w0)"
  proof (cases "execIdent l i")
    case None
    from execIdent_NoneD[OF None "1.prems"(4) sl] run(3) show ?thesis by simp
  next
    case (Some a)
    then show ?thesis using that by (cases a) auto
  qed
  define e0 where "e0 = s0 + length w0"
  note d = execIdent_SomeD[OF ex]
  note wd = execIdent_word[OF ex, folded e0_def]
  have s0s: "s0 \<le> s"
  proof (rule ccontr)
    assume "\<not> s0 \<le> s"
    then have "i \<le> s \<and> s < s0" using "1.prems"(4) by simp
    with d run(3) show False by blast
  qed
  have unfold: "wordLoop l c i = (if s0 \<le> c \<and> c \<le> e0 then Some w0 else wordLoop l c e0)"
    by (subst wordLoop.simps) (simp add: ex e0_def Let_def)
  show ?case
  proof (cases "s0 = s")
    case True
    have "e0 = e"
    proof (rule ccontr)
      assume "e0 \<noteq> e"
      then consider "e0 < e" | "e < e0" by arith
      then show False
      proof cases
        case 1
        then have "identChar (l ! e0)" using run(4)[of e0] wd(1) True by simp
        moreover have "e0 < length l" using 1 run(2) by simp
        ultimately show False using wd(5) by simp
      next
        case 2
        then have "identChar (l ! e)" using wd(4)[of e] run(1) True by simp
        moreover have "e < length l" using 2 wd(2) by simp
        ultimately show False using run(5) by simp
      qed
    qed
    moreover have "wordLoop l c i = Some w0"
      unfolding unfold using True \<open>e0 = e\<close> "1.prems"(2,3) by (intro if_P) simp
    ultimately show ?thesis using True wd(3) by simp
  next
    case False
    with s0s have lt: "s0 < s" by simp
    have e0s: "e0 < s"
    proof (rule ccontr)
      assume "\<not> e0 < s"
      then consider "s = e0" | "s < e0" by arith
      then show False
      proof cases
        case 1
        then have "\<not> identChar (l ! s)" using wd(5) sl by simp
        then show False using run(3) identStart_identChar by blast
      next
        case 2
        from run(6)[OF lt] d obtain j where j: "s0 < j" "j < e" "\<not> identChar (l ! j)" by blast
        show False
        proof (cases "j < e0")
          case True
          then show ?thesis using wd(4)[OF j(1)] j(3) by simp
        next
          case False
          then have "s < j" using 2 by simp
          then show ?thesis using run(4)[of j] j by simp
        qed
      qed
    qed
    then have neg: "\<not> (s0 \<le> c \<and> c \<le> e0)" using "1.prems"(2) by simp
    have "wordLoop l c e0 = Some (slice l s e)"
      using "1.IH"[OF ex refl e0_def neg "1.prems"(1,2,3)] e0s by simp
    moreover have "wordLoop l c i = wordLoop l c e0"
      unfolding unfold using neg by (rule if_not_P)
    ultimately show ?thesis by simp
  qed
qed

lemma wordLoop_SomeD:
  "wordLoop l c i = Some w \<Longrightarrow> i = 0 \<or> \<not> wordAt l i \<Longrightarrow>
     \<exists>s e. identRun l s e \<and> s \<le> c \<and> c \<le> e \<and> w = slice l s e"
proof (induction l c i rule: wordLoop.induct)
  case (1 l c i)
  obtain s0 w0 where ex: "execIdent l i = Some (s0, w0)"
  proof (cases "execIdent l i")
    case None
    with "1.prems"(1) show ?thesis by (simp add: wordLoop.simps[of l c i])
  next
    case (Some a)
    then show ?thesis using that by (cases a) auto
  qed
  define e0 where "e0 = s0 + length w0"
  note d = execIdent_SomeD[OF ex]
  note wd = execIdent_word[OF ex, folded e0_def]
  have unfold: "wordLoop l c i = (if s0 \<le> c \<and> c \<le> e0 then Some w0 else wordLoop l c e0)"
    by (subst wordLoop.simps) (simp add: ex e0_def Let_def)
  show ?case
  proof (cases "s0 \<le> c \<and> c \<le> e0")
    case True
    have "wordLoop l c i = Some w0"
      unfolding unfold using True by (rule if_P)
    with "1.prems"(1) have w: "w = w0" by simp
    have left: "\<exists>j. s' < j \<and> j < e0 \<and> \<not> identChar (l ! j)"
      if "s' < s0" "identStart (l ! s')" for s'
    proof -
      have "s' < i" using d that by (meson not_le_imp_less)
      then have "\<not> wordAt l i" using "1.prems"(2) by auto
      moreover have "i < length l" using d by simp
      ultimately have "\<not> identChar (l ! i)" by (simp add: wordAt_def)
      moreover have "i < e0" using d wd(1) by simp
      ultimately show ?thesis using \<open>s' < i\<close> by blast
    qed
    have "identRun l s0 e0"
      using wd(1,2) d wd(4,5) left by (intro identRun_I) auto
    then show ?thesis using True w wd(3) by blast
  next
    case False
    have "wordLoop l c i = wordLoop l c e0"
      unfolding unfold using False by (rule if_not_P)
    with "1.prems"(1) have nxt: "wordLoop l c e0 = Some w" by simp
    have "\<not> wordAt l e0" using wd(5) by (auto simp: wordAt_def)
    then show ?thesis using "1.IH"[OF ex refl e0_def False nxt] by simp
  qed
qed

text \<open>
  Claim C3. For a line and a maximal identifier run in the columns \<open>[s, e)\<close> of it,
  \<open>getWordAtPosition\<close> returns that identifier for every offset from \<open>s\<close> to \<open>e\<close>, the end
  boundary included. It returns nothing for an offset that no run holds between its
  boundaries, both included, and so for every offset past the end of the line.
\<close>
theorem getWordAtPosition_identifier_runs:
  "(identRun l s e \<and> s \<le> c \<and> c \<le> e \<longrightarrow> getWordAtPosition l c = Some (slice l s e))
   \<and> ((\<forall>s e. identRun l s e \<longrightarrow> c < s \<or> e < c) \<longrightarrow> getWordAtPosition l c = None)
   \<and> (length l < c \<longrightarrow> getWordAtPosition l c = None)"
proof (intro conjI impI)
  assume "identRun l s e \<and> s \<le> c \<and> c \<le> e"
  then show "getWordAtPosition l c = Some (slice l s e)"
    unfolding getWordAtPosition_def by (intro wordLoop_hit) auto
next
  assume h: "\<forall>s e. identRun l s e \<longrightarrow> c < s \<or> e < c"
  show "getWordAtPosition l c = None"
  proof (cases "getWordAtPosition l c")
    case (Some w)
    then have "wordLoop l c 0 = Some w" by (simp add: getWordAtPosition_def)
    from wordLoop_SomeD[OF this] h show ?thesis by fastforce
  qed simp
next
  assume h: "length l < c"
  show "getWordAtPosition l c = None"
  proof (cases "getWordAtPosition l c")
    case (Some w)
    then have "wordLoop l c 0 = Some w" by (simp add: getWordAtPosition_def)
    from wordLoop_SomeD[OF this] obtain s e where "identRun l s e" "c \<le> e" by auto
    with identRun_D(2)[of l s e] h show ?thesis by simp
  qed simp
qed

theorem getWordAtPosition_identifier_runs_witness:
  "identRun ''ab 1c'' 0 2 \<and> getWordAtPosition ''ab 1c'' 0 = Some ''ab''
   \<and> getWordAtPosition ''ab 1c'' 2 = Some ''ab''
   \<and> identRun ''ab 1c'' 4 5 \<and> getWordAtPosition ''ab 1c'' 5 = Some ''c''
   \<and> \<not> (\<exists>s e. identRun ''ab 1c'' s e \<and> s \<le> 3 \<and> 3 \<le> e)
   \<and> getWordAtPosition ''ab 1c'' 3 = None
   \<and> getWordAtPosition ''ab 1c'' 6 = None"
proof -
  let ?L = "''ab 1c''"
  have r1: "identRun ?L 0 2" by code_simp
  have r2: "identRun ?L 4 5" by code_simp
  have s1: "slice ?L 0 2 = ''ab''" by code_simp
  have s2: "slice ?L 4 5 = ''c''" by code_simp
  have bounded: "list_all (\<lambda>s. list_all (\<lambda>e. \<not> (identRun ?L s e \<and> s \<le> 3 \<and> 3 \<le> e)) [0..<6]) [0..<5]"
    by code_simp
  have none: "c < s \<or> e < c" if "identRun ?L s e" "c = 3" for s e c
  proof -
    from identRun_D(1,2)[OF that(1)] have "s \<in> set [0..<5]" "e \<in> set [0..<6]" by auto
    with bounded have "\<not> (identRun ?L s e \<and> s \<le> 3 \<and> 3 \<le> e)"
      unfolding list_all_iff by blast
    with that show ?thesis by auto
  qed
  have h3: "\<forall>s e. identRun ?L s e \<longrightarrow> (3::nat) < s \<or> e < 3" using none by blast
  have a: "getWordAtPosition ?L 0 = Some ''ab''"
    using getWordAtPosition_identifier_runs[of ?L 0 2 0] r1 s1 by simp
  have b: "getWordAtPosition ?L 2 = Some ''ab''"
    using getWordAtPosition_identifier_runs[of ?L 0 2 2] r1 s1 by simp
  have c: "getWordAtPosition ?L 5 = Some ''c''"
    using getWordAtPosition_identifier_runs[of ?L 4 5 5] r2 s2 by simp
  have d: "getWordAtPosition ?L 3 = None"
    using getWordAtPosition_identifier_runs[of ?L _ _ 3] h3 by blast
  have e: "getWordAtPosition ?L 6 = None"
    using getWordAtPosition_identifier_runs[of ?L _ _ 6] by simp
  from h3 have "\<not> (\<exists>s e. identRun ?L s e \<and> s \<le> 3 \<and> 3 \<le> e)" by fastforce
  with r1 r2 a b c d e show ?thesis by blast
qed

section \<open>Properties of stripStrings\<close>

lemma stringBody_le: "stringBody cs = Some n \<Longrightarrow> n \<le> length cs"
  by (induction cs arbitrary: n rule: stringBody.induct)
     (auto split: if_splits option.splits)

lemma stringMatch_le:
  assumes "stringMatch s = Some n"
  shows "n \<le> length s"
proof -
  from assms have t: "take 2 s = [backslash, dquote]"
    by (auto simp: stringMatch_def split: if_splits)
  then have "length (take 2 s) = 2" by simp
  then have len: "2 \<le> length s" by simp
  from assms t obtain m where m: "stringBody (drop 2 s) = Some m" "n = m + 2"
    by (auto simp: stringMatch_def split: option.splits)
  from stringBody_le[OF m(1)] len m(2) show ?thesis by simp
qed

lemma length_stripStrings: "length (stripStrings s) = length s"
proof (induction s rule: stripStrings.induct)
  case 1
  show ?case by (simp add: stripStrings.simps)
next
  case (2 c cs)
  show ?case
  proof (cases "stringMatch (c # cs)")
    case None
    with 2 show ?thesis by (simp add: stripStrings.simps)
  next
    case (Some n)
    from stringMatch_le[OF Some] 2(2)[OF Some] Some show ?thesis
      by (simp add: stripStrings.simps)
  qed
qed

lemma stringMatch_no_quote: "dquote \<notin> set s \<Longrightarrow> stringMatch s = None"
proof (cases "take 2 s = [backslash, dquote]")
  case True
  assume "dquote \<notin> set s"
  moreover have "dquote \<in> set (take 2 s)" using True by simp
  ultimately show ?thesis using in_set_takeD by fastforce
next
  case False
  then show ?thesis by (simp add: stringMatch_def)
qed

lemma stripStrings_no_quote: "dquote \<notin> set s \<Longrightarrow> stripStrings s = s"
  by (induction s) (simp_all add: stripStrings.simps stringMatch_no_quote)

text \<open>
  Claim C7. \<open>stripStrings\<close> keeps the length of every line, but it does not blank an
  ordinary double-quoted literal: the pattern in the source has each delimiter escaped twice,
  so it matches only what lies between two backslash-quote pairs. The literal \<open>"(a)"\<close> is
  returned as it is, parentheses included.
\<close>
theorem stripStrings_keeps_plain_literal:
  "stripStrings (''x = '' @ [dquote] @ ''(a)'' @ [dquote] @ '';'')
     = ''x = '' @ [dquote] @ ''(a)'' @ [dquote] @ '';''
   \<and> CHR ''('' \<in> set (stripStrings (''x = '' @ [dquote] @ ''(a)'' @ [dquote] @ '';''))
   \<and> stripStrings (''x = '' @ [backslash, dquote] @ ''(a)'' @ [backslash, dquote] @ '';'')
     = ''x =        ;''"
  by code_simp

section \<open>Properties of the symbol cache and of the server\<close>

subsection \<open>Forced refresh of a document whose text does not parse\<close>

text \<open>
  Claim C1, as the code has it. For a document with a cached tree, the analysis with a forced
  refresh on a text the parser rejects returns an empty symbol table and leaves the module
  state, the cached tree included, as it was. The failure of the parser is caught in
  \<open>getAST\<close> and reaches the caller as the missing tree, never as an exception.
\<close>
theorem forced_refresh_parse_failure:
  assumes "map_of (astMap st) u = Some a" and "parse text = Inl e"
  shows "analyzeText parse text u True st = ([], st)"
  using assms by (simp add: analyzeText_def getAST_def)

theorem forced_refresh_parse_failure_witness:
  "map_of (astMap cachedState) ''file:///a.afl''
     = Some (Program [VariableDeclaration
               [Identifier ''x'' (Some \<lparr>startLine = 1, startColumn = 0,
                                          endLine = 1, endColumn = 1\<rparr>)]])
   \<and> rejectingParser ''x = ('' = Inl SyntaxError
   \<and> analyzeText rejectingParser ''x = ('' ''file:///a.afl'' True cachedState
       = ([], cachedState)"
proof -
  have a: "map_of (astMap cachedState) ''file:///a.afl''
     = Some (Program [VariableDeclaration
               [Identifier ''x'' (Some \<lparr>startLine = 1, startColumn = 0,
                                          endLine = 1, endColumn = 1\<rparr>)]])"
    by (simp add: cachedState_def)
  have b: "rejectingParser ''x = ('' = Inl SyntaxError" by (simp add: rejectingParser_def)
  from forced_refresh_parse_failure[of cachedState "''file:///a.afl''" _ rejectingParser
      "''x = (''" SyntaxError, OF a b] a b
  show ?thesis by simp
qed

text \<open>The result is not the one derived from the cached tree, which the call without a forced
  refresh returns.\<close>
theorem forced_refresh_no_stale_fallback:
  "map_of (astMap cachedState) ''file:///a.afl'' \<noteq> None
   \<and> getAST rejectingParser ''x = ('' = None
   \<and> fst (analyzeText rejectingParser ''x = ('' ''file:///a.afl'' True cachedState) = []
   \<and> map fst (fst (analyzeText rejectingParser ''x = ('' ''file:///a.afl'' False cachedState))
       = [''x'']
   \<and> fst (analyzeText rejectingParser ''x = ('' ''file:///a.afl'' True cachedState)
       \<noteq> fst (analyzeText rejectingParser ''x = ('' ''file:///a.afl'' False cachedState)"
proof -
  have 1: "map_of (astMap cachedState) ''file:///a.afl'' \<noteq> None" by (simp add: cachedState_def)
  have 2: "getAST rejectingParser ''x = ('' = None" by (simp add: getAST_def rejectingParser_def)
  have 3: "fst (analyzeText rejectingParser ''x = ('' ''file:///a.afl'' True cachedState) = []"
    by code_simp
  have 4: "map fst (fst (analyzeText rejectingParser ''x = ('' ''file:///a.afl'' False cachedState))
       = [''x'']" by code_simp
  from 3 4 have 5: "fst (analyzeText rejectingParser ''x = ('' ''file:///a.afl'' True cachedState)
       \<noteq> fst (analyzeText rejectingParser ''x = ('' ''file:///a.afl'' False cachedState)"
    by auto
  from 1 2 3 4 5 show ?thesis by blast
qed

subsection \<open>Closing a document\<close>

lemma keys_foldl_update:
  "fst ` set (foldl (\<lambda>tbl (k, v). AList.update k v tbl) tbl xs) = fst ` set tbl \<union> fst ` set xs"
proof (induction xs arbitrary: tbl)
  case Nil
  show ?case by simp
next
  case (Cons x xs)
  obtain k v where x: "x = (k, v)" by (cases x)
  have "fst ` set (foldl (\<lambda>tbl (k, v). AList.update k v tbl) tbl (x # xs))
      = fst ` set (AList.update k v tbl) \<union> fst ` set xs"
    using Cons.IH[of "AList.update k v tbl"] x by simp
  also have "\<dots> = ({k} \<union> fst ` set tbl) \<union> fst ` set xs"
    by (simp only: dom_update)
  also have "\<dots> = fst ` set tbl \<union> fst ` set (x # xs)" using x by auto
  finally show ?case .
qed

lemma symbolTable_updateSymbolsForDocument:
  "fst ` set (symbolTable (updateSymbolsForDocument parse doc c st))
     = fst ` set (symbolTable st)
       \<union> fst ` set (fst (analyzeText parse (content doc) (uri doc) c (analysis st)))"
  by (simp add: updateSymbolsForDocument_def keys_foldl_update split: prod.splits)

lemma labels_onCompletion: "label ` set (onCompletion st) = fst ` set (symbolTable st)"
  by (force simp: onCompletion_def image_iff split: prod.splits)

text \<open>
  Claim C8. Closing a document leaves the global symbol table as it is: the completion list is
  the same before and after, and it holds the name of every symbol the analysis of the
  document has put into the table.
\<close>
theorem close_keeps_symbol_table:
  "symbolTable (onDidClose doc st) = symbolTable st
   \<and> onCompletion (onDidClose doc st) = onCompletion st
   \<and> (\<forall>n \<in> fst ` set (fst (analyzeText parse (content doc) (uri doc) c (analysis st))).
         n \<in> label ` set (onCompletion (onDidClose doc (updateSymbolsForDocument parse doc c st))))"
proof -
  have 1: "symbolTable (onDidClose doc s) = symbolTable s" for s
    by (simp add: onDidClose_def)
  then have 2: "onCompletion (onDidClose doc s) = onCompletion s" for s
    by (simp add: onCompletion_def)
  show ?thesis
    unfolding 1 2 labels_onCompletion symbolTable_updateSymbolsForDocument by simp
qed

theorem close_keeps_symbol_table_witness:
  "map fst (fst (analyzeText sampleParser (content docA) (uri docA) False (analysis emptyState)))
     = [''f'', ''b'', ''a'']
   \<and> map label (onCompletion (onDidClose docA (updateSymbolsForDocument sampleParser docA False emptyState)))
     = [''f'', ''b'', ''a'']
   \<and> ''b'' \<in> label ` set (onCompletion (onDidClose docA
                 (updateSymbolsForDocument sampleParser docA False emptyState)))"
proof -
  have a: "map fst (fst (analyzeText sampleParser (content docA) (uri docA) False (analysis emptyState)))
     = [''f'', ''b'', ''a'']" by code_simp
  have b: "map label (onCompletion (onDidClose docA (updateSymbolsForDocument sampleParser docA False emptyState)))
     = [''f'', ''b'', ''a'']" by code_simp
  have "''b'' \<in> set (map fst (fst (analyzeText sampleParser (content docA) (uri docA) False (analysis emptyState))))"
    unfolding a by simp
  then have "''b'' \<in> fst ` set (fst (analyzeText sampleParser (content docA) (uri docA) False (analysis emptyState)))"
    by simp
  with close_keeps_symbol_table[of docA emptyState sampleParser False] a b
  show ?thesis by blast
qed

subsection \<open>The debounced update of the symbols\<close>

lemma runTimers_not_due:
  assumes "\<forall>t \<in> set (timers st). now < due t"
  shows "runTimers parse now st = st"
proof -
  have 1: "filter (\<lambda>t. due t \<le> now) (timers st) = []"
    using assms by (auto simp: filter_empty_conv)
  have 2: "filter (\<lambda>t. now < due t) (timers st) = timers st"
    using assms by (auto simp: filter_id_conv)
  show ?thesis by (simp add: runTimers_def 1 2)
qed

lemma updateSymbolsForDocument_frame:
  "timers (updateSymbolsForDocument parse doc c st) = timers st"
  "recomputed (updateSymbolsForDocument parse doc c st) = recomputed st"
  "updateSymbolTimeout (updateSymbolsForDocument parse doc c st) = updateSymbolTimeout st"
  "nextHandle (updateSymbolsForDocument parse doc c st) = nextHandle st"
  by (simp_all add: updateSymbolsForDocument_def split: prod.splits)

text \<open>One change notification while a single timer, the one \<open>updateSymbolTimeout\<close> names, is
  pending and not yet due.\<close>
lemma changeAt_pending:
  assumes "timers st = [\<lparr>handle = h, due = t0 + 2000, target = d0\<rparr>]"
    and "updateSymbolTimeout st = Some h"
    and "t < t0 + 2000" and "languageId d = ''afl''"
  shows "timers (changeAt parse t d st) = [\<lparr>handle = nextHandle st, due = t + 2000, target = d\<rparr>]"
    and "updateSymbolTimeout (changeAt parse t d st) = Some (nextHandle st)"
    and "recomputed (changeAt parse t d st) = recomputed st"
proof -
  have "runTimers parse t st = st" using assms(1,3) by (intro runTimers_not_due) simp
  then have c: "changeAt parse t d st = onDidChangeContent t d st" by (simp add: changeAt_def)
  show "timers (changeAt parse t d st) = [\<lparr>handle = nextHandle st, due = t + 2000, target = d\<rparr>]"
    unfolding c using assms by (simp add: onDidChangeContent_def clearTimeout_def setTimeout_def)
  show "updateSymbolTimeout (changeAt parse t d st) = Some (nextHandle st)"
    unfolding c using assms by (simp add: onDidChangeContent_def clearTimeout_def setTimeout_def)
  show "recomputed (changeAt parse t d st) = recomputed st"
    unfolding c using assms by (simp add: onDidChangeContent_def clearTimeout_def setTimeout_def)
qed

lemma changesAt_pending:
  assumes "timers st = [\<lparr>handle = h, due = t0 + 2000, target = d0\<rparr>]"
    and "updateSymbolTimeout st = Some h"
    and "burst t0 evs"
  shows "\<exists>h'. timers (changesAt parse evs st)
            = [\<lparr>handle = h', due = fst (last ((t0, d0) # evs)) + 2000,
                target = snd (last ((t0, d0) # evs))\<rparr>]
          \<and> updateSymbolTimeout (changesAt parse evs st) = Some h'
          \<and> recomputed (changesAt parse evs st) = recomputed st"
  using assms
proof (induction evs arbitrary: st h t0 d0)
  case Nil
  then show ?case by (simp add: changesAt_def)
next
  case (Cons ev evs)
  obtain t d where ev: "ev = (t, d)" by (cases ev)
  from Cons.prems(3) ev have b: "t0 \<le> t" "t < t0 + 2000" "languageId d = ''afl''" "burst t evs"
    by auto
  note step = changeAt_pending[OF Cons.prems(1,2) b(2,3), of parse]
  from Cons.IH[OF step(1,2) b(4)] step(3) ev show ?case
    by (simp add: changesAt_def)
qed

text \<open>The first change notification, with no timer pending.\<close>
lemma changeAt_quiet:
  assumes "timers st = []" and "languageId d = ''afl''"
  shows "timers (changeAt parse t d st) = [\<lparr>handle = nextHandle st, due = t + 2000, target = d\<rparr>]"
    and "updateSymbolTimeout (changeAt parse t d st) = Some (nextHandle st)"
    and "recomputed (changeAt parse t d st) = recomputed st"
proof -
  have "runTimers parse t st = st" using assms(1) by (intro runTimers_not_due) simp
  then have c: "changeAt parse t d st = onDidChangeContent t d st" by (simp add: changeAt_def)
  show "timers (changeAt parse t d st) = [\<lparr>handle = nextHandle st, due = t + 2000, target = d\<rparr>]"
    unfolding c using assms
    by (simp add: onDidChangeContent_def clearTimeout_def setTimeout_def split: option.splits)
  show "updateSymbolTimeout (changeAt parse t d st) = Some (nextHandle st)"
    unfolding c using assms
    by (simp add: onDidChangeContent_def clearTimeout_def setTimeout_def split: option.splits)
  show "recomputed (changeAt parse t d st) = recomputed st"
    unfolding c using assms
    by (simp add: onDidChangeContent_def clearTimeout_def setTimeout_def split: option.splits)
qed

lemma runTimers_single_due:
  assumes "timers st = [\<lparr>handle = h, due = t0, target = d\<rparr>]" and "t0 \<le> now"
  shows "recomputed (runTimers parse now st) = recomputed st @ [uri d]"
    and "timers (runTimers parse now st) = []"
  using assms
  by (simp_all add: runTimers_def timerCallback_def updateSymbolsForDocument_frame)

text \<open>
  Claim C9, as the code has it. There is one timer for all documents. After a run of change
  notifications for documents of language \<open>afl\<close>, whichever documents they are, each less
  than 2000 ms after the one before, a single update runs once 2000 ms have passed since the
  last of them, for the document of that last notification; every earlier pending update has
  been cancelled. A change of a document of another language leaves the state, and so the
  pending update, as it is.
\<close>
theorem debounce_latest_change_wins:
  assumes "timers st = []"
    and "languageId d0 = ''afl''"
    and "burst t0 evs"
    and "fst (last ((t0, d0) # evs)) + 2000 \<le> now"
  shows "recomputed (runTimers parse now (changesAt parse ((t0, d0) # evs) st))
           = recomputed st @ [uri (snd (last ((t0, d0) # evs)))]
       \<and> timers (runTimers parse now (changesAt parse ((t0, d0) # evs) st)) = []
       \<and> (languageId d \<noteq> ''afl'' \<longrightarrow> onDidChangeContent t d s = s)"
proof -
  let ?s1 = "changeAt parse t0 d0 st"
  note first = changeAt_quiet[OF assms(1,2), of parse t0]
  from changesAt_pending[OF first(1,2) assms(3), of parse]
  obtain h' where h': "timers (changesAt parse evs ?s1)
            = [\<lparr>handle = h', due = fst (last ((t0, d0) # evs)) + 2000,
                target = snd (last ((t0, d0) # evs))\<rparr>]"
    "recomputed (changesAt parse evs ?s1) = recomputed ?s1" by blast
  have eq: "changesAt parse ((t0, d0) # evs) st = changesAt parse evs ?s1"
    by (simp add: changesAt_def)
  from runTimers_single_due[OF h'(1) assms(4), of parse] h'(2) first(3)
  show ?thesis unfolding eq by (simp add: onDidChangeContent_def)
qed

theorem debounce_latest_change_wins_witness:
  "timers emptyState = [] \<and> languageId docA = ''afl''
   \<and> burst 0 [(1000, docB), (2500, docA)]
   \<and> fst (last [(0, docA), (1000, docB), (2500, docA)]) + 2000 \<le> (4500::nat)
   \<and> recomputed (runTimers sampleParser 4500
         (changesAt sampleParser [(0, docA), (1000, docB), (2500, docA)] emptyState))
       = [''file:///a.afl'']
   \<and> languageId docT \<noteq> ''afl''
   \<and> onDidChangeContent 5 docT emptyState = emptyState"
proof -
  have a: "timers emptyState = []" by (simp add: emptyState_def)
  have b: "languageId docA = ''afl''" by (simp add: docA_def)
  have c: "burst 0 [(1000, docB), (2500, docA)]" by (simp add: docA_def docB_def)
  have d: "fst (last [(0, docA), (1000, docB), (2500, docA)]) + 2000 \<le> (4500::nat)" by simp
  have e: "languageId docT \<noteq> ''afl''" by (simp add: docT_def)
  have f: "uri (snd (last [(0, docA), (1000, docB), (2500, docA)])) = ''file:///a.afl''"
    by (simp add: docA_def)
  have g: "recomputed emptyState = []" by (simp add: emptyState_def)
  from debounce_latest_change_wins[OF a b c d, of sampleParser docT 5 emptyState] a b c d e f g
  show ?thesis by simp
qed

text \<open>A change of another document does cancel the pending update: after a change of
  \<open>a.afl\<close> and, one second later, a change of \<open>b.afl\<close>, only \<open>b.afl\<close> is updated.\<close>
theorem change_of_other_document_cancels:
  "uri docA \<noteq> uri docB
   \<and> recomputed (runTimers sampleParser 10000
        (changeAt sampleParser 1000 docB (changeAt sampleParser 0 docA emptyState)))
       = [''file:///b.afl'']
   \<and> uri docA \<notin> set (recomputed (runTimers sampleParser 10000
        (changeAt sampleParser 1000 docB (changeAt sampleParser 0 docA emptyState))))"
  by code_simp

section \<open>Lines of a text and offsets of positions\<close>

definition noEOL :: "string \<Rightarrow> bool" where
  "noEOL l = (\<forall>c \<in> set l. \<not> isEOL c)"

definition isTerm :: "string \<Rightarrow> bool" where
  "isTerm t = (t = [LF] \<or> t = [CR, LF])"

lemma CR_neq_LF [simp]: "CR \<noteq> LF" "LF \<noteq> CR"
  by (simp_all add: CR_def LF_def)

lemma noEOL_simps [simp]:
  "noEOL []" "noEOL (c # cs) \<longleftrightarrow> c \<noteq> CR \<and> c \<noteq> LF \<and> noEOL cs"
  "noEOL (xs @ ys) \<longleftrightarrow> noEOL xs \<and> noEOL ys"
  by (auto simp: noEOL_def isEOL_def)

lemma splitLines_line:
  "noEOL l \<Longrightarrow> isTerm t \<Longrightarrow> splitLines (l @ t @ r) = l # splitLines r"
  by (induction l) (auto simp: isTerm_def)

lemma splitLines_noEOL: "noEOL l \<Longrightarrow> splitLines l = [l]"
  by (induction l) auto

lemma lineOffsetsFrom_line:
  "noEOL l \<Longrightarrow> isTerm t \<Longrightarrow>
     lineOffsetsFrom i (l @ t @ r)
       = (i + length l + length t) # lineOffsetsFrom (i + length l + length t) r"
  by (induction l arbitrary: i) (auto simp: isTerm_def isEOL_def)

lemma lineOffsetsFrom_noEOL: "noEOL l \<Longrightarrow> lineOffsetsFrom i l = []"
  by (induction l arbitrary: i) (auto simp: isEOL_def)

inductive linesPrefix :: "string \<Rightarrow> nat \<Rightarrow> bool" where
  Nil: "linesPrefix [] 0"
| Line: "noEOL l \<Longrightarrow> isTerm t \<Longrightarrow> linesPrefix pre n \<Longrightarrow> linesPrefix (l @ t @ pre) (Suc n)"

lemma linesPrefix_0: "linesPrefix pre 0 \<Longrightarrow> pre = []"
  by (cases rule: linesPrefix.cases) auto

lemma splitLines_prefix:
  "linesPrefix pre n \<Longrightarrow> \<exists>ls. length ls = n \<and> (\<forall>r. splitLines (pre @ r) = ls @ splitLines r)"
proof (induction rule: linesPrefix.induct)
  case Nil
  show ?case by simp
next
  case (Line l t pre n)
  then obtain ls where ls: "length ls = n" "\<forall>r. splitLines (pre @ r) = ls @ splitLines r"
    by blast
  have "splitLines ((l @ t @ pre) @ r) = (l # ls) @ splitLines r" for r
    using splitLines_line[OF Line(1,2), of "pre @ r"] ls(2) by simp
  with ls(1) show ?case by (intro exI[of _ "l # ls"]) simp
qed

lemma lineOffsetsFrom_prefix:
  "linesPrefix pre n \<Longrightarrow>
     \<exists>os. length os = n
        \<and> (\<forall>i r. lineOffsetsFrom i (pre @ r)
                   = map (\<lambda>x. i + x) os @ lineOffsetsFrom (i + length pre) r)
        \<and> (0 < n \<longrightarrow> last os = length pre)"
proof (induction rule: linesPrefix.induct)
  case Nil
  show ?case by simp
next
  case (Line l t pre n)
  then obtain os where os: "length os = n"
    "\<forall>i r. lineOffsetsFrom i (pre @ r) = map (\<lambda>x. i + x) os @ lineOffsetsFrom (i + length pre) r"
    "0 < n \<longrightarrow> last os = length pre"
    by blast
  let ?k = "length l + length t"
  let ?os = "?k # map (\<lambda>x. ?k + x) os"
  have "lineOffsetsFrom i ((l @ t @ pre) @ r)
      = map (\<lambda>x. i + x) ?os @ lineOffsetsFrom (i + length (l @ t @ pre)) r" for i r
    using lineOffsetsFrom_line[OF Line(1,2), of i "pre @ r"] os(2)
    by (simp add: add.assoc)
  moreover have "last ?os = length (l @ t @ pre)"
  proof (cases "n = 0")
    case True
    with os(1) Line(3) linesPrefix_0 show ?thesis by auto
  next
    case False
    then have "os \<noteq> []" using os(1) by auto
    then show ?thesis using os(3) False by (simp add: last_map)
  qed
  ultimately show ?case using os(1) by (intro exI[of _ ?os]) simp
qed

lemma first_line:
  "noLoneCR tx \<Longrightarrow>
     noEOL tx \<or> (\<exists>l t r. tx = l @ t @ r \<and> noEOL l \<and> isTerm t \<and> noLoneCR r)"
proof (induction tx)
  case Nil
  show ?case by simp
next
  case (Cons c cs)
  show ?case
  proof (cases "c = LF")
    case True
    with Cons.prems have "c # cs = [] @ [LF] @ cs \<and> noEOL [] \<and> isTerm [LF] \<and> noLoneCR cs"
      by (simp add: isTerm_def)
    then show ?thesis by blast
  next
    case nLF: False
    show ?thesis
    proof (cases "c = CR")
      case True
      with Cons.prems obtain r where r: "cs = LF # r"
        by (cases cs) auto
      with Cons.prems True have "c # cs = [] @ [CR, LF] @ r \<and> noEOL [] \<and> isTerm [CR, LF] \<and> noLoneCR r"
        by (simp add: isTerm_def)
      then show ?thesis by blast
    next
      case False
      from Cons.prems have "noLoneCR cs" by simp
      from Cons.IH[OF this] show ?thesis
      proof
        assume "noEOL cs"
        with False nLF show ?thesis by simp
      next
        assume "\<exists>l t r. cs = l @ t @ r \<and> noEOL l \<and> isTerm t \<and> noLoneCR r"
        then obtain l t r where "cs = l @ t @ r" "noEOL l" "isTerm t" "noLoneCR r" by blast
        with False nLF have "c # cs = (c # l) @ t @ r \<and> noEOL (c # l) \<and> isTerm t \<and> noLoneCR r"
          by simp
        then show ?thesis by blast
      qed
    qed
  qed
qed

lemma line_decomposition:
  "noLoneCR tx \<Longrightarrow> n < length (splitLines tx) \<Longrightarrow>
     \<exists>pre post. tx = pre @ (splitLines tx ! n) @ post \<and> linesPrefix pre n
        \<and> noEOL (splitLines tx ! n)
        \<and> (post = [] \<or> (\<exists>t r. isTerm t \<and> post = t @ r))"
proof (induction n arbitrary: tx)
  case 0
  from first_line[OF 0(1)] show ?case
  proof
    assume e: "noEOL tx"
    then have "tx = [] @ (splitLines tx ! 0) @ []" by (simp add: splitLines_noEOL)
    with e show ?thesis
      using linesPrefix.Nil splitLines_noEOL[OF e] by (metis nth_Cons_0)
  next
    assume "\<exists>l t r. tx = l @ t @ r \<and> noEOL l \<and> isTerm t \<and> noLoneCR r"
    then obtain l t r where d: "tx = l @ t @ r" "noEOL l" "isTerm t" by blast
    have "splitLines tx ! 0 = l" using splitLines_line[OF d(2,3)] d(1) by simp
    then have "tx = [] @ (splitLines tx ! 0) @ (t @ r) \<and> noEOL (splitLines tx ! 0)"
      using d by simp
    then show ?thesis using linesPrefix.Nil d(3) by blast
  qed
next
  case (Suc n)
  from first_line[OF Suc.prems(1)] show ?case
  proof
    assume "noEOL tx"
    from splitLines_noEOL[OF this] Suc.prems(2) show ?thesis by simp
  next
    assume "\<exists>l t r. tx = l @ t @ r \<and> noEOL l \<and> isTerm t \<and> noLoneCR r"
    then obtain l t r where d: "tx = l @ t @ r" "noEOL l" "isTerm t" "noLoneCR r" by blast
    have sl: "splitLines tx = l # splitLines r" using splitLines_line[OF d(2,3)] d(1) by simp
    with Suc.prems(2) have "n < length (splitLines r)" by simp
    from Suc.IH[OF d(4) this] obtain pre post where
      ih: "r = pre @ (splitLines r ! n) @ post" "linesPrefix pre n" "noEOL (splitLines r ! n)"
        "post = [] \<or> (\<exists>t r. isTerm t \<and> post = t @ r)" by blast
    have nth: "splitLines tx ! Suc n = splitLines r ! n" using sl by simp
    have "tx = (l @ t @ pre) @ (splitLines tx ! Suc n) @ post"
      using d(1) ih(1) nth by simp
    moreover have "linesPrefix (l @ t @ pre) (Suc n)"
      using linesPrefix.Line[OF d(2,3) ih(2)] .
    ultimately show ?thesis using ih(3,4) nth by metis
  qed
qed

lemma offsetAt_in_line:
  assumes pre: "linesPrefix pre n" and x: "noEOL x"
    and post: "post = [] \<or> (\<exists>t r. isTerm t \<and> post = t @ r)"
    and c: "c \<le> length x"
  shows "offsetAt (pre @ x @ post) \<lparr>line = n, character = c\<rparr> = length pre + c"
proof -
  let ?tx = "pre @ x @ post"
  from lineOffsetsFrom_prefix[OF pre] obtain os where os: "length os = n"
    "\<forall>i r. lineOffsetsFrom i (pre @ r) = map (\<lambda>x. i + x) os @ lineOffsetsFrom (i + length pre) r"
    "0 < n \<longrightarrow> last os = length pre" by blast
  define rest where "rest = lineOffsetsFrom (length pre) (x @ post)"
  have m: "map (\<lambda>x. 0 + x) os = os" by (induction os) auto
  have "lineOffsetsFrom 0 ?tx = os @ rest"
    unfolding rest_def using os(2)[rule_format, of 0 "x @ post"] unfolding m by simp
  then have offs: "getLineOffsets ?tx = (0 # os) @ rest"
    by (simp add: getLineOffsets_def)
  have len: "length (getLineOffsets ?tx) = Suc n + length rest" using offs os(1) by simp
  have "n < length (0 # os)" using os(1) by simp
  then have "((0 # os) @ rest) ! n = (0 # os) ! n" by (rule nth_append_left)
  also have "\<dots> = length pre"
  proof (cases n)
    case 0
    with pre linesPrefix_0 show ?thesis by auto
  next
    case (Suc m)
    then have "os \<noteq> []" using os(1) by auto
    then have "last os = os ! m" using os(1) Suc by (simp add: last_conv_nth)
    with os(3) Suc show ?thesis by simp
  qed
  finally have nth: "getLineOffsets ?tx ! n = length pre" using offs by simp
  have nxt: "length pre + c \<le> (if n + 1 < length (getLineOffsets ?tx)
                then getLineOffsets ?tx ! (n + 1) else length ?tx)"
  proof (cases "post = []")
    case True
    then have "rest = []" using x by (simp add: rest_def lineOffsetsFrom_noEOL)
    then show ?thesis using len c True by simp
  next
    case False
    with post obtain t r where t: "isTerm t" "post = t @ r" by blast
    have r: "rest = (length pre + length x + length t)
                # lineOffsetsFrom (length pre + length x + length t) r"
      unfolding rest_def t(2) by (rule lineOffsetsFrom_line[OF x t(1)])
    have "getLineOffsets ?tx ! (n + 1) = length pre + length x + length t"
      using offs os(1) r by (simp add: nth_append)
    then show ?thesis using len r c by simp
  qed
  show ?thesis
  proof (cases "c = 0")
    case True
    then show ?thesis using len nth by (simp add: offsetAt_def Let_def)
  next
    case False
    have "length pre + c - 1 = length pre + (c - 1)" using False by simp
    then have "?tx ! (length pre + c - 1) = (x @ post) ! (c - 1)"
      by (simp only: nth_append_length_plus)
    also have "\<dots> = x ! (c - 1)" using False c by (intro nth_append_left) simp
    finally have "?tx ! (length pre + c - 1) = x ! (c - 1)" .
    moreover have "x ! (c - 1) \<in> set x" using False c by (intro nth_mem) simp
    ultimately have "\<not> isEOL (?tx ! (length pre + c - 1))"
      using x by (simp add: noEOL_def)
    then have ens: "ensureBeforeEOL ?tx (length pre + c) (length pre) = length pre + c"
      by (subst ensureBeforeEOL.simps) simp
    define N where "N = (if n + 1 < length (getLineOffsets ?tx)
                then getLineOffsets ?tx ! (n + 1) else length ?tx)"
    have "length pre + c \<le> N" using nxt unfolding N_def .
    then have mn: "min (length pre + c) N = length pre + c" by (rule min_absorb1)
    have "offsetAt ?tx \<lparr>line = n, character = c\<rparr>
        = ensureBeforeEOL ?tx (min (length pre + c) N) (length pre)"
      using False len nth by (simp add: offsetAt_def Let_def N_def)
    then show ?thesis unfolding mn ens .
  qed
qed

lemma getText_in_line:
  assumes pre: "linesPrefix pre n" and x: "noEOL x"
    and post: "post = [] \<or> (\<exists>t r. isTerm t \<and> post = t @ r)"
    and se: "s \<le> e" "e \<le> length x"
  shows "getText (pre @ x @ post)
           \<lparr>rangeStart = \<lparr>line = n, character = s\<rparr>, rangeEnd = \<lparr>line = n, character = e\<rparr>\<rparr>
         = slice x s e"
proof -
  have a: "offsetAt (pre @ x @ post) \<lparr>line = n, character = s\<rparr> = length pre + s"
    using offsetAt_in_line[OF pre x post] se by simp
  have b: "offsetAt (pre @ x @ post) \<lparr>line = n, character = e\<rparr> = length pre + e"
    using offsetAt_in_line[OF pre x post] se by simp
  have "slice (pre @ x @ post) (length pre + s) (length pre + e) = slice x s e"
    using se by (simp add: slice_def)
  then show ?thesis using se by (simp add: getText_def a b min_def max_def)
qed

lemma applyTextEdit_in_line:
  assumes pre: "linesPrefix pre n" and x: "noEOL x"
    and post: "post = [] \<or> (\<exists>t r. isTerm t \<and> post = t @ r)"
    and se: "s \<le> e" "e \<le> length x"
  shows "applyTextEdit (pre @ x @ post)
           \<lparr>editRange = \<lparr>rangeStart = \<lparr>line = n, character = s\<rparr>,
                          rangeEnd = \<lparr>line = n, character = e\<rparr>\<rparr>,
            newText = new\<rparr>
         = pre @ (take s x @ new @ drop e x) @ post"
proof -
  have a: "offsetAt (pre @ x @ post) \<lparr>line = n, character = s\<rparr> = length pre + s"
    using offsetAt_in_line[OF pre x post] se by simp
  have b: "offsetAt (pre @ x @ post) \<lparr>line = n, character = e\<rparr> = length pre + e"
    using offsetAt_in_line[OF pre x post] se by simp
  show ?thesis using se by (simp add: applyTextEdit_def a b min_def max_def)
qed

lemma splitLines_at_line:
  assumes pre: "linesPrefix pre n" and x: "noEOL x"
    and post: "post = [] \<or> (\<exists>t r. isTerm t \<and> post = t @ r)"
  shows "n < length (splitLines (pre @ x @ post)) \<and> splitLines (pre @ x @ post) ! n = x"
proof -
  from splitLines_prefix[OF pre] obtain ls where ls: "length ls = n"
    "\<forall>r. splitLines (pre @ r) = ls @ splitLines r" by blast
  have "\<exists>tl. splitLines (x @ post) = x # tl"
  proof (cases "post = []")
    case True
    then show ?thesis using splitLines_noEOL[OF x] by simp
  next
    case False
    with post obtain t r where "isTerm t" "post = t @ r" by blast
    then show ?thesis using splitLines_line[OF x, of t r] by simp
  qed
  then obtain tl where "splitLines (x @ post) = x # tl" by blast
  then have "splitLines (pre @ x @ post) = ls @ x # tl" using ls(2) by simp
  then show ?thesis using ls(1) by (simp add: nth_append)
qed

section \<open>Runs of characters by index\<close>

text \<open>The end of the longest run of characters with \<open>P\<close> that starts at index \<open>a\<close>.\<close>
definition runEnd :: "(char \<Rightarrow> bool) \<Rightarrow> string \<Rightarrow> nat \<Rightarrow> nat" where
  "runEnd P l a = a + length (takeWhile P (drop a l))"

lemma runEnd_props:
  assumes "a \<le> length l"
  shows "a \<le> runEnd P l a" "runEnd P l a \<le> length l"
    "\<And>j. a \<le> j \<Longrightarrow> j < runEnd P l a \<Longrightarrow> P (l ! j)"
    "runEnd P l a < length l \<Longrightarrow> \<not> P (l ! runEnd P l a)"
    "dropWhile P (drop a l) = drop (runEnd P l a) l"
    "takeWhile P (drop a l) = slice l a (runEnd P l a)"
proof -
  let ?xs = "drop a l"
  let ?n = "length (takeWhile P ?xs)"
  have n: "?n \<le> length l - a" using length_takeWhile_le[of P ?xs] by simp
  show "a \<le> runEnd P l a" by (simp add: runEnd_def)
  show "runEnd P l a \<le> length l" using n assms by (simp add: runEnd_def)
  show "P (l ! j)" if "a \<le> j" "j < runEnd P l a" for j
  proof -
    define k where "k = j - a"
    have k: "j = a + k" using that(1) unfolding k_def by arith
    then have "k < ?n" using that(2) by (simp add: runEnd_def)
    then have "P (?xs ! k)" by (rule takeWhile_nth_holds)
    then show ?thesis using k assms by simp
  qed
  show "\<not> P (l ! runEnd P l a)" if "runEnd P l a < length l"
  proof -
    have "?n < length ?xs" using that by (simp add: runEnd_def)
    from nth_length_takeWhile[OF this] show ?thesis using assms by (simp add: runEnd_def)
  qed
  have "dropWhile P ?xs = drop ?n ?xs" by (rule dropWhile_eq_drop)
  then show "dropWhile P (drop a l) = drop (runEnd P l a) l"
    by (simp add: runEnd_def add.commute)
  have "takeWhile P ?xs = take ?n ?xs" by (rule takeWhile_eq_take)
  then show "takeWhile P (drop a l) = slice l a (runEnd P l a)"
    by (simp add: runEnd_def slice_def)
qed

lemma runEnd_unique:
  assumes "a \<le> k" "k \<le> length l"
    and "\<And>j. a \<le> j \<Longrightarrow> j < k \<Longrightarrow> P (l ! j)"
    and "k < length l \<Longrightarrow> \<not> P (l ! k)"
  shows "runEnd P l a = k"
proof -
  have al: "a \<le> length l" using assms(1,2) by simp
  note r = runEnd_props[OF al, where P = P]
  show ?thesis
  proof (rule ccontr)
    assume "runEnd P l a \<noteq> k"
    then consider "runEnd P l a < k" | "k < runEnd P l a" by arith
    then show False
    proof cases
      case 1
      then have "P (l ! runEnd P l a)" using assms(3) r(1) by simp
      moreover have "runEnd P l a < length l" using 1 assms(2) by simp
      ultimately show False using r(4) by simp
    next
      case 2
      then have "P (l ! k)" using r(3) assms(1) by simp
      moreover have "k < length l" using 2 r(2) by simp
      ultimately show False using assms(4) by simp
    qed
  qed
qed

text \<open>A run that ends before index \<open>e\<close> is the same in every line with the same first \<open>e\<close>
  characters and one more.\<close>
lemma runEnd_prefix:
  assumes "take e l' = take e l" and "a \<le> length l" and "runEnd P l a < e"
    and "e \<le> length l" and "e \<le> length l'"
  shows "runEnd P l' a = runEnd P l a"
proof -
  note r = runEnd_props[OF assms(2), where P = P]
  have nth: "l' ! j = l ! j" if "j < e" for j
    using that assms(1) by (metis nth_take)
  show ?thesis
  proof (rule runEnd_unique)
    show "a \<le> runEnd P l a" by (rule r(1))
    show "runEnd P l a \<le> length l'" using assms(3,5) by simp
    show "P (l' ! j)" if "a \<le> j" "j < runEnd P l a" for j
      using r(3)[OF that] nth[of j] that assms(3) by simp
    show "\<not> P (l' ! runEnd P l a)"
      using r(4) nth[of "runEnd P l a"] assms(3,4) by simp
  qed
qed

section \<open>The call pattern by index\<close>

lemma slice_take: "b \<le> e \<Longrightarrow> slice (take e l) a b = slice l a b"
proof -
  assume "b \<le> e"
  then have "min (b - a) (e - a) = b - a" by simp
  then show ?thesis by (simp add: slice_def drop_take)
qed

lemma callStartAt_unfold:
  assumes s: "s < length l"
  defines "k \<equiv> runEnd identChar l (Suc s)"
  defines "m \<equiv> runEnd isSpace l k"
  shows "callStartAt l s =
     (if wordBoundary l s \<and> identStart (l ! s) \<and> m < length l \<and> l ! m = CHR ''(''
      then Some (slice l s k, Suc m) else None)"
proof -
  have rest: "drop s l = l ! s # drop (Suc s) l" using s by (simp add: Cons_nth_drop_Suc)
  have sl: "Suc s \<le> length l" using s by simp
  note rk = runEnd_props[OF sl, where P = identChar, folded k_def]
  note rm = runEnd_props[OF rk(2), where P = isSpace, folded m_def]
  have name: "l ! s # takeWhile identChar (drop (Suc s) l) = slice l s k"
  proof -
    have "slice l s k = take (k - s) (l ! s # drop (Suc s) l)"
      unfolding slice_def rest ..
    also have "k - s = Suc (k - Suc s)" using rk(1) by simp
    also have "take (Suc (k - Suc s)) (l ! s # drop (Suc s) l)
        = l ! s # slice l (Suc s) k" by (simp add: slice_def)
    finally show ?thesis using rk(6) by simp
  qed
  have after: "dropWhile isSpace (dropWhile identChar (drop (Suc s) l)) = drop m l"
    using rk(5) rm(5) by simp
  have paren: "take 1 (drop m l) = ''('' \<longleftrightarrow> m < length l \<and> l ! m = CHR ''(''"
  proof (cases "m < length l")
    case True
    then have "drop m l = l ! m # drop (Suc m) l" by (simp add: Cons_nth_drop_Suc)
    then show ?thesis using True by simp
  next
    case False
    then show ?thesis by simp
  qed
  have len: "Suc (length l - length (drop m l)) = Suc m" using rm(2) by simp
  show ?thesis
    unfolding callStartAt_def Let_def rest list.sel after name paren len
    by auto
qed

lemma callStartAt_SomeD:
  assumes "callStartAt l s = Some (fname, e1)"
  shows "s < length l" "wordBoundary l s" "identStart (l ! s)"
    "fname = slice l s (runEnd identChar l (Suc s))"
    "e1 = Suc (runEnd isSpace l (runEnd identChar l (Suc s)))"
    "runEnd isSpace l (runEnd identChar l (Suc s)) < length l"
    "l ! runEnd isSpace l (runEnd identChar l (Suc s)) = CHR ''(''"
proof -
  show s: "s < length l"
  proof (rule ccontr)
    assume "\<not> s < length l"
    then have "drop s l = []" by simp
    with assms show False by (simp add: callStartAt_def)
  qed
  from assms show "wordBoundary l s" "identStart (l ! s)"
    "fname = slice l s (runEnd identChar l (Suc s))"
    "e1 = Suc (runEnd isSpace l (runEnd identChar l (Suc s)))"
    "runEnd isSpace l (runEnd identChar l (Suc s)) < length l"
    "l ! runEnd isSpace l (runEnd identChar l (Suc s)) = CHR ''(''"
    unfolding callStartAt_unfold[OF s] by (auto split: if_splits)
qed

text \<open>What the pattern matches at \<open>s\<close> depends on the characters up to the parenthesis it
  ends with only.\<close>
lemma callStartAt_prefix:
  assumes c: "callStartAt l s = Some (fname, e1)"
    and t: "take e l' = take e l" and e: "e1 \<le> e" "e \<le> length l" "e \<le> length l'"
  shows "callStartAt l' s = Some (fname, e1)"
proof -
  note d = callStartAt_SomeD[OF c]
  let ?k = "runEnd identChar l (Suc s)"
  let ?m = "runEnd isSpace l ?k"
  have sl: "Suc s \<le> length l" using d(1) by simp
  note rk = runEnd_props[OF sl, where P = identChar]
  note rm = runEnd_props[OF rk(2), where P = isSpace]
  have me: "?m < e" using d(5) e(1) by simp
  have ke: "?k < e" using rm(1) me by simp
  have se: "s < e" using rk(1) ke by simp
  have nth: "l' ! j = l ! j" if "j < e" for j
    using that t by (metis nth_take)
  have k': "runEnd identChar l' (Suc s) = ?k"
    using t sl ke e(2,3) by (rule runEnd_prefix)
  have m': "runEnd isSpace l' ?k = ?m"
    using t rk(2) me e(2,3) by (rule runEnd_prefix)
  have s': "s < length l'" using se e(3) by simp
  have wb: "wordBoundary l' s = wordBoundary l s"
    using nth[of s] nth[of "s - 1"] se s' d(1)
    by (auto simp: wordBoundary_def wordAt_def)
  have sl': "slice l' s ?k = slice l s ?k"
  proof -
    have "slice l' s ?k = slice (take e l') s ?k" using ke by (simp add: slice_take)
    also have "\<dots> = slice (take e l) s ?k" unfolding t ..
    also have "\<dots> = slice l s ?k" using ke by (simp add: slice_take)
    finally show ?thesis .
  qed
  show ?thesis
    unfolding callStartAt_unfold[OF s'] k' m' wb sl'
    using d nth[of s] nth[of ?m] se me e(3) by simp
qed

section \<open>The parenthesis search, the comment removal and a space before the closing parenthesis\<close>

lemma indexOf_SomeD:
  assumes "indexOf l c a = Some j"
  shows "a \<le> j" "j < length l" "l ! j = c" "j = runEnd (\<lambda>x. x \<noteq> c) l a"
proof -
  from assms have mem: "c \<in> set (drop a l)" and j: "j = runEnd (\<lambda>x. x \<noteq> c) l a"
    by (auto simp: indexOf_def runEnd_def split: if_splits)
  from mem have al: "a \<le> length l" by (cases "a \<le> length l") auto
  note r = runEnd_props[OF al, where P = "\<lambda>x. x \<noteq> c"]
  show "a \<le> j" using r(1) j by simp
  show "j = runEnd (\<lambda>x. x \<noteq> c) l a" by (rule j)
  have "dropWhile (\<lambda>x. x \<noteq> c) (drop a l) \<noteq> []"
    using mem by (simp add: dropWhile_eq_Nil_conv)
  then have "drop j l \<noteq> []" using r(5) j by simp
  then show jl: "j < length l" by simp
  from r(4) jl j show "l ! j = c" by simp
qed

lemma indexOf_prefix:
  assumes i: "indexOf l c a = Some j"
    and t: "take e l' = take e l" and e: "j < e" "e \<le> length l" "e \<le> length l'"
  shows "indexOf l' c a = Some j"
proof -
  note d = indexOf_SomeD[OF i]
  have al: "a \<le> length l" using d(1,2) by simp
  have r: "runEnd (\<lambda>x. x \<noteq> c) l' a = j"
    unfolding d(4) using t al e(1)[unfolded d(4)] e(2,3) by (rule runEnd_prefix)
  have c: "l' ! j = c" using t e(1) d(3) by (metis nth_take)
  have jl: "j < length l'" using e(1,3) by simp
  have "drop a l' ! (j - a) = l' ! j" using d(1) jl by simp
  moreover have "j - a < length (drop a l')" using d(1) jl by simp
  ultimately have "l' ! j \<in> set (drop a l')" by (metis nth_mem)
  then have "c \<in> set (drop a l')" using c by simp
  then show ?thesis using r by (simp add: indexOf_def runEnd_def)
qed

lemma matchParen_SomeD:
  "1 \<le> depth \<Longrightarrow> matchParen cs depth i = Some k \<Longrightarrow>
     i \<le> k \<and> k - i < length cs \<and> cs ! (k - i) = CHR '')''"
proof (induction cs arbitrary: depth i)
  case Nil
  then show ?case by simp
next
  case (Cons c cs)
  let ?d = "if c = CHR ''('' then depth + 1 else if c = CHR '')'' then depth - 1 else depth"
  show ?case
  proof (cases "?d = 0")
    case True
    with Cons.prems have "k = i" by (simp add: Let_def)
    moreover from True Cons.prems(1) have "c = CHR '')''" by (auto split: if_splits)
    ultimately show ?thesis by simp
  next
    case False
    with Cons.prems have m: "matchParen cs ?d (Suc i) = Some k" by (simp add: Let_def)
    have "1 \<le> ?d" using False Cons.prems(1) by (auto split: if_splits)
    from Cons.IH[OF this m] have ih: "Suc i \<le> k" "k - Suc i < length cs"
      "cs ! (k - Suc i) = CHR '')''" by auto
    have "k - i = Suc (k - Suc i)" using ih(1) by simp
    with ih show ?thesis by simp
  qed
qed

lemma matchParen_insert_space:
  "1 \<le> depth \<Longrightarrow> matchParen cs depth i = Some k \<Longrightarrow>
     matchParen (take (k - i) cs @ CHR '' '' # drop (k - i) cs) depth i = Some (Suc k)"
proof (induction cs arbitrary: depth i)
  case Nil
  then show ?case by simp
next
  case (Cons c cs)
  let ?d = "if c = CHR ''('' then depth + 1 else if c = CHR '')'' then depth - 1 else depth"
  show ?case
  proof (cases "?d = 0")
    case True
    with Cons.prems have k: "k = i" by (simp add: Let_def)
    have "matchParen (CHR '' '' # c # cs) depth i = matchParen (c # cs) depth (Suc i)"
      using Cons.prems(1) by simp
    also have "\<dots> = Some (Suc i)" using True by (simp add: Let_def)
    finally show ?thesis using k by simp
  next
    case False
    with Cons.prems have m: "matchParen cs ?d (Suc i) = Some k" by (simp add: Let_def)
    have d1: "1 \<le> ?d" using False Cons.prems(1) by (auto split: if_splits)
    from matchParen_SomeD[OF d1 m] have "Suc i \<le> k" by simp
    then have ki: "k - i = Suc (k - Suc i)" by simp
    have "matchParen (take (k - i) (c # cs) @ CHR '' '' # drop (k - i) (c # cs)) depth i
        = matchParen (c # (take (k - Suc i) cs @ CHR '' '' # drop (k - Suc i) cs)) depth i"
      unfolding ki by simp
    also have "\<dots> = matchParen (take (k - Suc i) cs @ CHR '' '' # drop (k - Suc i) cs) ?d (Suc i)"
      using False by (simp add: Let_def)
    also have "\<dots> = Some (Suc k)" by (rule Cons.IH[OF d1 m])
    finally show ?thesis .
  qed
qed

text \<open>The search from an opening parenthesis.\<close>
lemma matchParen_open:
  assumes "matchParen (drop a l) 0 a = Some k" and "a < length l" and "l ! a = CHR ''(''"
  shows "a < k" "k < length l" "l ! k = CHR '')''"
    "matchParen (drop a (take k l @ CHR '' '' # drop k l)) 0 a = Some (Suc k)"
proof -
  have d: "drop a l = CHR ''('' # drop (Suc a) l"
    using assms(2,3) by (simp add: Cons_nth_drop_Suc[symmetric])
  from assms(1) have m: "matchParen (drop (Suc a) l) 1 (Suc a) = Some k"
    unfolding d by (simp add: Let_def)
  from matchParen_SomeD[OF _ m] have k: "Suc a \<le> k" "k - Suc a < length l - Suc a"
    "drop (Suc a) l ! (k - Suc a) = CHR '')''" by auto
  show ak: "a < k" using k(1) by simp
  show kl: "k < length l" using k(1,2) by simp
  show "l ! k = CHR '')''" using k(1,3) kl by simp
  have e1: "drop a (take k l @ CHR '' '' # drop k l)
      = drop a (take k l) @ CHR '' '' # drop k l" using ak kl by simp
  have "a < length (take k l)" using ak kl by simp
  from Cons_nth_drop_Suc[OF this]
  have e2: "drop a (take k l) = CHR ''('' # drop (Suc a) (take k l)"
    using ak assms(3) by simp
  have e3: "drop (Suc a) (take k l) = take (k - Suc a) (drop (Suc a) l)"
    by (simp add: drop_take)
  have e4: "drop (k - Suc a) (drop (Suc a) l) = drop k l" using k(1) by simp
  have e: "drop a (take k l @ CHR '' '' # drop k l)
      = CHR ''('' # (take (k - Suc a) (drop (Suc a) l) @ CHR '' ''
                      # drop (k - Suc a) (drop (Suc a) l))"
    by (simp only: e1 e2 e3 e4 append.simps)
  show "matchParen (drop a (take k l @ CHR '' '' # drop k l)) 0 a = Some (Suc k)"
    unfolding e using matchParen_insert_space[OF _ m] by (simp add: Let_def)
qed

lemma str_includes_char: "str_includes l [c] \<longleftrightarrow> c \<in> set l"
  by (induction l) auto

lemma set_removeLineComment: "set (removeLineComment l) \<subseteq> set l"
  by (induction l) auto

lemma removeLineComment_prefix: "\<exists>p. removeLineComment l = take p l"
proof (induction l)
  case Nil
  show ?case by simp
next
  case (Cons c cs)
  then obtain p where p: "removeLineComment cs = take p cs" by blast
  show ?case
  proof (cases "take 2 (c # cs) = ''//'' \<and> list_all dotChar (drop 1 cs)")
    case True
    then have "removeLineComment (c # cs) = take 0 (c # cs)" by simp
    then show ?thesis by blast
  next
    case False
    then have "removeLineComment (c # cs) = take (Suc p) (c # cs)" using p by simp
    then show ?thesis by blast
  qed
qed

lemma take2_slashes:
  "take 2 (c # r) = ''//'' \<longleftrightarrow> c = CHR ''/'' \<and> (\<exists>r2. r = CHR ''/'' # r2)"
  by (cases r) (auto simp: numeral_2_eq_2)

lemma removeLineComment_insert_space:
  "k < length (removeLineComment l) \<Longrightarrow> l ! k = CHR '')'' \<Longrightarrow>
     removeLineComment (take k l @ CHR '' '' # drop k l)
       = take k (removeLineComment l) @ CHR '' '' # drop k (removeLineComment l)"
proof (induction l arbitrary: k)
  case Nil
  then show ?case by simp
next
  case (Cons c r)
  let ?cut = "\<lambda>c r. take 2 (c # r) = ''//'' \<and> list_all dotChar (drop 1 r)"
  from Cons.prems(1) have nocut: "\<not> ?cut c r" by (auto split: if_splits)
  then have rl: "removeLineComment (c # r) = c # removeLineComment r" by simp
  show ?case
  proof (cases k)
    case 0
    with Cons.prems(2) have c: "c = CHR '')''" by simp
    have "removeLineComment (CHR '' '' # c # r) = CHR '' '' # removeLineComment (c # r)"
      by simp
    then show ?thesis using 0 by simp
  next
    case (Suc j)
    let ?r' = "take j r @ CHR '' '' # drop j r"
    from Cons.prems Suc rl have j: "j < length (removeLineComment r)" "r ! j = CHR '')''"
      by auto
    have "\<not> ?cut c ?r'"
    proof
      assume cut: "?cut c ?r'"
      then have c: "c = CHR ''/''" and "\<exists>r2. ?r' = CHR ''/'' # r2"
        unfolding take2_slashes by auto
      then obtain q where q: "?r' = CHR ''/'' # q" by blast
      have j0: "j \<noteq> 0" using q by (cases j) auto
      have jr: "j < length r"
        using j(1) removeLineComment_prefix[of r] by (metis length_take min_less_iff_conj)
      then obtain x r2 where r: "r = x # r2" by (cases r) auto
      obtain j' where j': "j = Suc j'" using j0 by (cases j) auto
      have x: "x = CHR ''/''" using q r j' by simp
      have all: "list_all dotChar (take j' r2 @ CHR '' '' # drop j' r2)"
        using cut r j' by simp
      have "set r2 = set (take j' r2) \<union> set (drop j' r2)"
        by (metis append_take_drop_id set_append)
      then have "list_all dotChar r2" using all by (auto simp: list_all_iff)
      then have "?cut c r" using c x r unfolding take2_slashes by simp
      with nocut show False by simp
    qed
    then have "removeLineComment (c # ?r') = c # removeLineComment ?r'" by simp
    also have "removeLineComment ?r'
        = take j (removeLineComment r) @ CHR '' '' # drop j (removeLineComment r)"
      by (rule Cons.IH[OF j])
    finally show ?thesis using Suc rl by simp
  qed
qed

section \<open>Where a diagnostic comes from\<close>

lemma execCallStart_SomeD:
  "execCallStart l i = Some (s, fname, e1) \<Longrightarrow> callStartAt l s = Some (fname, e1)"
proof (induction l i rule: execCallStart.induct)
  case (1 l i)
  show ?case
  proof (cases "callStartAt l i")
    case None
    with 1 show ?thesis by (auto simp: execCallStart.simps[of l i] split: if_splits)
  next
    case (Some a)
    with "1.prems" show ?thesis
      by (cases a) (auto simp: execCallStart.simps[of l i] split: if_splits)
  qed
qed

lemma scanCalls_origin:
  "d \<in> set (scanCalls n l i) \<Longrightarrow>
     \<exists>s fname e1. callStartAt l s = Some (fname, e1) \<and> d \<in> set (checkCall n l s fname)"
proof (induction n l i rule: scanCalls.induct)
  case (1 lineNum l i)
  show ?case
  proof (cases "execCallStart l i")
    case None
    with "1.prems" show ?thesis by (simp add: scanCalls.simps)
  next
    case (Some a)
    obtain s fname lastIndex where a: "a = (s, fname, lastIndex)" by (cases a) auto
    from "1.prems" Some a
    have "d \<in> set (checkCall lineNum l s fname) \<or> d \<in> set (scanCalls lineNum l lastIndex)"
      by (simp add: scanCalls_step)
    then show ?thesis
    proof
      assume "d \<in> set (checkCall lineNum l s fname)"
      with execCallStart_SomeD[of l i s fname lastIndex] Some a show ?thesis by blast
    next
      assume "d \<in> set (scanCalls lineNum l lastIndex)"
      from "1.IH"[OF Some a[symmetric] refl this] show ?thesis .
    qed
  qed
qed

lemma lintLines_origin:
  "d \<in> set (lintLines k b ls) \<Longrightarrow>
     \<exists>j. j < length ls \<and> line (rangeStart (range d)) = k + j
        \<and> \<not> str_includes (ls ! j) [dquote]
        \<and> d \<in> set (scanCalls (k + j) (stripStrings (removeLineComment (ls ! j))) 0)"
proof (induction ls arbitrary: k b)
  case Nil
  then show ?case by simp
next
  case (Cons l ls)
  let ?b = "commentStep b l"
  from Cons.prems have
    "(\<not> skipLine ?b l \<and> d \<in> set (scanCalls k (stripStrings (removeLineComment l)) 0))
     \<or> d \<in> set (lintLines (Suc k) ?b ls)"
    by (auto simp: Let_def split: if_splits)
  then show ?case
  proof
    assume h: "\<not> skipLine ?b l \<and> d \<in> set (scanCalls k (stripStrings (removeLineComment l)) 0)"
    then have "line (rangeStart (range d)) = k" using scanCalls_line by blast
    with h have "0 < length (l # ls) \<and> line (rangeStart (range d)) = k + 0
        \<and> \<not> str_includes ((l # ls) ! 0) [dquote]
        \<and> d \<in> set (scanCalls (k + 0) (stripStrings (removeLineComment ((l # ls) ! 0))) 0)"
      by (simp add: skipLine_def)
    then show ?thesis by blast
  next
    assume "d \<in> set (lintLines (Suc k) ?b ls)"
    from Cons.IH[OF this] obtain j where j: "j < length ls"
      "line (rangeStart (range d)) = Suc k + j" "\<not> str_includes (ls ! j) [dquote]"
      "d \<in> set (scanCalls (Suc k + j) (stripStrings (removeLineComment (ls ! j))) 0)" by blast
    then have "Suc j < length (l # ls) \<and> line (rangeStart (range d)) = k + Suc j
        \<and> \<not> str_includes ((l # ls) ! Suc j) [dquote]
        \<and> d \<in> set (scanCalls (k + Suc j) (stripStrings (removeLineComment ((l # ls) ! Suc j))) 0)"
      by simp
    then show ?thesis by blast
  qed
qed

text \<open>A diagnostic of the rule lies on a line without a double quote, at a match of the call
  pattern in that line without its comment.\<close>
lemma checkFunctionSpaces_origin:
  assumes "d \<in> set (checkFunctionSpaces tx u)"
  defines "n \<equiv> line (rangeStart (range d))"
  defines "s \<equiv> character (rangeStart (range d))"
  shows "n < length (splitLines tx)" "dquote \<notin> set (splitLines tx ! n)"
    "\<exists>fname e1. callStartAt (removeLineComment (splitLines tx ! n)) s = Some (fname, e1)
        \<and> d \<in> set (checkCall n (removeLineComment (splitLines tx ! n)) s fname)"
proof -
  from assms(1) lintLines_origin[of d 0 False "splitLines tx"]
  obtain j where j: "j < length (splitLines tx)" "line (rangeStart (range d)) = j"
    "\<not> str_includes (splitLines tx ! j) [dquote]"
    "d \<in> set (scanCalls j (stripStrings (removeLineComment (splitLines tx ! j))) 0)"
    by (auto simp: checkFunctionSpaces_def)
  have nj: "n = j" using j(2) by (simp add: n_def)
  show "n < length (splitLines tx)" using j(1) nj by simp
  show q: "dquote \<notin> set (splitLines tx ! n)" using j(3) nj by (simp add: str_includes_char)
  have "dquote \<notin> set (removeLineComment (splitLines tx ! n))"
    using q set_removeLineComment by blast
  then have "stripStrings (removeLineComment (splitLines tx ! n))
      = removeLineComment (splitLines tx ! n)" by (rule stripStrings_no_quote)
  with j(4) nj have "d \<in> set (scanCalls n (removeLineComment (splitLines tx ! n)) 0)" by simp
  from scanCalls_origin[OF this] obtain s' fname e1 where
    c: "callStartAt (removeLineComment (splitLines tx ! n)) s' = Some (fname, e1)"
    "d \<in> set (checkCall n (removeLineComment (splitLines tx ! n)) s' fname)" by blast
  from checkCall_line[OF c(2)] have "s' = s" by (simp add: s_def)
  with c show "\<exists>fname e1. callStartAt (removeLineComment (splitLines tx ! n)) s = Some (fname, e1)
        \<and> d \<in> set (checkCall n (removeLineComment (splitLines tx ! n)) s fname)" by blast
qed

definition needle :: string where
  "needle = ''space before '' @ [CHR 0x27] @ '')'' @ [CHR 0x27]"

lemma needle_messages:
  "str_includes msgBefore needle" "\<not> str_includes msgAfter needle"
  "\<not> str_includes msgBoth needle"
  by code_simp+

lemma checkCall_SomeD:
  assumes "d \<in> set (checkCall n l s fname)"
  shows "\<exists>openIdx closeIdx.
      indexOf l (CHR ''('') (s + length fname) = Some openIdx
    \<and> matchParen (drop openIdx l) 0 openIdx = Some closeIdx
    \<and> \<not> list_all isSpace (slice l (openIdx + 1) closeIdx)
    \<and> d = spacingDiagnostic n s closeIdx (message d)
    \<and> (str_includes (message d) needle \<longrightarrow>
          isSpace (hd (slice l (openIdx + 1) closeIdx))
        \<and> \<not> isSpace (last (slice l (openIdx + 1) closeIdx)))"
proof -
  obtain openIdx where o: "indexOf l (CHR ''('') (s + length fname) = Some openIdx"
  proof (cases "indexOf l (CHR ''('') (s + length fname)")
    case None
    with assms show ?thesis by (simp add: checkCall_def)
  next
    case (Some a)
    then show ?thesis using that by blast
  qed
  obtain closeIdx where c: "matchParen (drop openIdx l) 0 openIdx = Some closeIdx"
  proof (cases "matchParen (drop openIdx l) 0 openIdx")
    case None
    with assms o show ?thesis by (simp add: checkCall_def)
  next
    case (Some a)
    then show ?thesis using that by blast
  qed
  let ?args = "slice l (openIdx + 1) closeIdx"
  from assms have nb: "\<not> list_all isSpace ?args"
    unfolding checkCall_cases[OF o c] by (auto simp: Let_def split: if_splits)
  from assms nb have both: "\<not> (isSpace (hd ?args) \<and> isSpace (last ?args))"
    and d: "d = spacingDiagnostic n s closeIdx
             (if isSpace (hd ?args) then msgBefore
              else if isSpace (last ?args) then msgAfter else msgBoth)"
    unfolding checkCall_cases[OF o c] by (auto simp: Let_def split: if_splits)
  have m: "message d = (if isSpace (hd ?args) then msgBefore
              else if isSpace (last ?args) then msgAfter else msgBoth)"
    by (subst d) (simp add: spacingDiagnostic_def)
  have "isSpace (hd ?args) \<and> \<not> isSpace (last ?args)" if "str_includes (message d) needle"
    using that both needle_messages unfolding m by (auto split: if_splits)
  moreover have "d = spacingDiagnostic n s closeIdx (message d)"
    unfolding m by (rule d)
  ultimately show ?thesis using o c nb by blast
qed

section \<open>Properties of the quick fix\<close>

lemma isSpace_simps [simp]: "isSpace (CHR '' '')" "\<not> isSpace (CHR ''('')"
  by (simp_all add: isSpace_def code_def)

text \<open>A call that lacks only the space before its closing parenthesis, once the space is
  there: the pattern matches as before and the call gets no diagnostic.\<close>
lemma fixed_call_clean:
  assumes c: "callStartAt pl s = Some (fname, e1)"
    and o: "indexOf pl (CHR ''('') (s + length fname) = Some openIdx"
    and m: "matchParen (drop openIdx pl) 0 openIdx = Some closeIdx"
    and nb: "\<not> list_all isSpace (slice pl (openIdx + 1) closeIdx)"
    and sp: "isSpace (hd (slice pl (openIdx + 1) closeIdx))"
  defines "pl' \<equiv> take closeIdx pl @ CHR '' '' # drop closeIdx pl"
  shows "callStartAt pl' s = Some (fname, e1)" and "checkCall n pl' s fname = []"
proof -
  note io = indexOf_SomeD[OF o]
  note mp = matchParen_open[OF m io(2) io(3)]
  note cs = callStartAt_SomeD[OF c]
  let ?k = "runEnd identChar pl (Suc s)"
  let ?m = "runEnd isSpace pl ?k"
  have sl: "Suc s \<le> length pl" using cs(1) by simp
  note rk = runEnd_props[OF sl, where P = identChar]
  note rm = runEnd_props[OF rk(2), where P = isSpace]
  have "length fname = ?k - s" unfolding cs(4) using rk(2) by (simp add: length_slice)
  then have k: "s + length fname = ?k" using rk(1) by simp
  have "runEnd (\<lambda>x. x \<noteq> CHR ''('') pl ?k = ?m"
  proof (rule runEnd_unique)
    show "?k \<le> ?m" by (rule rm(1))
    show "?m \<le> length pl" by (rule rm(2))
    show "pl ! j \<noteq> CHR ''(''" if "?k \<le> j" "j < ?m" for j
      using rm(3)[OF that] by auto
    show "\<not> pl ! ?m \<noteq> CHR ''(''" using cs(7) by simp
  qed
  then have om: "openIdx = ?m" using io(4) k by simp
  have e1: "e1 \<le> closeIdx" using cs(5) om mp(1) by simp
  have t: "take closeIdx pl' = take closeIdx pl" using mp(2) by (simp add: pl'_def)
  have len: "closeIdx \<le> length pl" "closeIdx \<le> length pl'" using mp(2) by (simp_all add: pl'_def)
  show "callStartAt pl' s = Some (fname, e1)"
    using c t e1 len by (rule callStartAt_prefix)
  have o': "indexOf pl' (CHR ''('') (s + length fname) = Some openIdx"
    using o t mp(1) len by (rule indexOf_prefix)
  have m': "matchParen (drop openIdx pl') 0 openIdx = Some (Suc closeIdx)"
    unfolding pl'_def by (rule mp(4))
  let ?args = "slice pl (openIdx + 1) closeIdx"
  have "drop (openIdx + 1) pl' = drop (openIdx + 1) (take closeIdx pl) @ CHR '' '' # drop closeIdx pl"
    using mp(1,2) by (simp add: pl'_def)
  moreover have "drop (openIdx + 1) (take closeIdx pl) = ?args"
    by (simp add: slice_def drop_take)
  moreover have "length ?args = closeIdx - (openIdx + 1)"
    using mp(2) by (simp add: length_slice)
  ultimately have args': "slice pl' (openIdx + 1) (Suc closeIdx) = ?args @ '' ''"
    using mp(1) by (simp add: slice_def)
  have ne: "?args \<noteq> []" using nb by auto
  show "checkCall n pl' s fname = []"
    using checkCall_cases[OF o' m', of n] args' ne sp by (simp add: Let_def)
qed

lemma lastIndexOf_last:
  assumes "t \<noteq> []" and "last t = c"
  shows "lastIndexOf t c = Some (length t - 1)"
proof -
  have "c \<in> set t" using assms by (metis last_in_set)
  moreover have "takeWhile (\<lambda>x. x \<noteq> c) (rev t) = []"
    using assms by (simp add: takeWhile_eq_Nil_iff hd_rev)
  ultimately show ?thesis by (simp add: lastIndexOf_def)
qed

text \<open>
  Claim C4, as the code has it. Take a diagnostic that \<open>checkFunctionSpaces\<close> computes from the
  text of an open document in which every carriage return is followed by a line feed, with a
  message that names the missing space before the closing parenthesis. The text its range
  spans ends with that parenthesis; the code-action handler returns one action, whose edit
  replaces the range by the spanned text with a space before its last \<open>)\<close>; and in the text
  with the edit applied, the rule reports no diagnostic that starts where the diagnostic
  started.
\<close>
theorem quick_fix_clears_diagnostic:
  assumes docs: "map_of docs (uri doc) = Some doc"
    and crlf: "noLoneCR (content doc)"
    and d: "d \<in> set (checkFunctionSpaces (content doc) (uri doc))"
    and msg: "str_includes (message d) (''space before '' @ [CHR 0x27] @ '')'' @ [CHR 0x27])"
  shows "\<exists>t. t = getText (content doc) (range d) \<and> t \<noteq> [] \<and> last t = CHR '')''
      \<and> onCodeAction docs \<lparr>textDocumentUri = uri doc, contextDiagnostics = [d]\<rparr>
          = [\<lparr>title = ''Insert space before '' @ [CHR 0x27] @ '')'' @ [CHR 0x27],
               actionKind = QuickFix, actionDiagnostics = [d],
               changes = [(uri doc, [\<lparr>editRange = range d, newText = butlast t @ '' )''\<rparr>])]\<rparr>]
      \<and> (\<forall>d' \<in> set (checkFunctionSpaces
                         (applyTextEdit (content doc)
                            \<lparr>editRange = range d, newText = butlast t @ '' )''\<rparr>)
                         (uri doc)).
            rangeStart (range d') \<noteq> rangeStart (range d))"
proof -
  define tx where "tx = content doc"
  define n where "n = line (rangeStart (range d))"
  define s where "s = character (rangeStart (range d))"
  define l where "l = splitLines tx ! n"
  define pl where "pl = removeLineComment l"
  have msg': "str_includes (message d) needle" using msg by (simp add: needle_def)
  note org = checkFunctionSpaces_origin[OF d, folded tx_def n_def s_def, folded l_def,
      folded pl_def]
  from org(3) obtain fname e1 where c: "callStartAt pl s = Some (fname, e1)"
    and dc: "d \<in> set (checkCall n pl s fname)" by blast
  from checkCall_SomeD[OF dc] msg' obtain openIdx closeIdx where
    o: "indexOf pl (CHR ''('') (s + length fname) = Some openIdx"
    and m: "matchParen (drop openIdx pl) 0 openIdx = Some closeIdx"
    and nb: "\<not> list_all isSpace (slice pl (openIdx + 1) closeIdx)"
    and dd: "d = spacingDiagnostic n s closeIdx (message d)"
    and sp: "isSpace (hd (slice pl (openIdx + 1) closeIdx))" by blast
  note io = indexOf_SomeD[OF o]
  note mp = matchParen_open[OF m io(2) io(3)]
  have sc: "s \<le> closeIdx" using io(1) mp(1) by simp
  obtain p where p: "pl = take p l" using removeLineComment_prefix[of l] pl_def by auto
  have cl: "closeIdx < length l" "Suc closeIdx \<le> p" using mp(2) p by simp_all
  have lc: "l ! closeIdx = CHR '')''" using mp(2,3) p by simp
  have rng: "range d = \<lparr>rangeStart = \<lparr>line = n, character = s\<rparr>,
                        rangeEnd = \<lparr>line = n, character = Suc closeIdx\<rparr>\<rparr>"
    by (subst dd) (simp add: spacingDiagnostic_def)
  from line_decomposition[OF crlf[folded tx_def] org(1)] obtain pre post where
    dec: "tx = pre @ l @ post" "linesPrefix pre n" "noEOL l"
      "post = [] \<or> (\<exists>t r. isTerm t \<and> post = t @ r)"
    unfolding l_def by blast
  define t where "t = getText (content doc) (range d)"
  have t: "t = slice l s (Suc closeIdx)"
    unfolding t_def tx_def[symmetric] rng dec(1)
    using getText_in_line[OF dec(2,3,4), of s "Suc closeIdx"] sc cl(1) by simp
  have tlen: "length t = Suc closeIdx - s" unfolding t using cl(1) by (simp add: length_slice)
  then have tne: "t \<noteq> []" using sc by auto
  have idx: "length t - 1 = closeIdx - s" using tlen sc by simp
  have "last t = t ! (closeIdx - s)" using tne idx by (simp add: last_conv_nth)
  also have "\<dots> = l ! (s + (closeIdx - s))"
    unfolding t using sc cl(1) by (intro slice_nth) simp_all
  also have "s + (closeIdx - s) = closeIdx" using sc by simp
  finally have tlast: "last t = CHR '')''" using lc by simp
  have "butlast t = take (closeIdx - s) t" using idx by (simp add: butlast_conv_take)
  also have "\<dots> = slice l s closeIdx" unfolding t slice_def by (simp add: min_def)
  finally have bl: "butlast t = slice l s closeIdx" .
  let ?edit = "\<lparr>editRange = range d, newText = butlast t @ '' )''\<rparr>"
  have new: "take (length t - 1) t @ '' )'' @ drop (length t - 1 + 1) t = butlast t @ '' )''"
    using tne by (simp add: butlast_conv_take)
  have fx: "fixFunctionSapces docs \<lparr>textDocumentUri = uri doc, contextDiagnostics = [d]\<rparr> d
      = Some \<lparr>title = ''Insert space before '' @ [CHR 0x27] @ '')'' @ [CHR 0x27],
               actionKind = QuickFix, actionDiagnostics = [d],
               changes = [(uri doc, [?edit])]\<rparr>"
    using docs lastIndexOf_last[OF tne tlast] new
    by (simp add: fixFunctionSapces_def Let_def t_def)
  have act: "onCodeAction docs \<lparr>textDocumentUri = uri doc, contextDiagnostics = [d]\<rparr>
          = [\<lparr>title = ''Insert space before '' @ [CHR 0x27] @ '')'' @ [CHR 0x27],
               actionKind = QuickFix, actionDiagnostics = [d],
               changes = [(uri doc, [?edit])]\<rparr>]"
    using msg fx by (simp add: onCodeAction_def)
  define l' where "l' = take closeIdx l @ CHR '' '' # drop closeIdx l"
  have "take s l @ (butlast t @ '' )'') @ drop (Suc closeIdx) l = l'"
  proof -
    have "take s l @ slice l s closeIdx = take closeIdx l"
      using sc by (simp add: slice_def take_add[symmetric] flip: take_drop)
    moreover have "'' )'' @ drop (Suc closeIdx) l = CHR '' '' # drop closeIdx l"
      using lc cl(1) by (simp flip: Cons_nth_drop_Suc)
    ultimately show ?thesis unfolding bl l'_def by simp
  qed
  then have tx': "applyTextEdit (content doc) ?edit = pre @ l' @ post"
    unfolding tx_def[symmetric] rng dec(1)
    using applyTextEdit_in_line[OF dec(2,3,4), of s "Suc closeIdx" "butlast t @ '' )''"] sc cl(1)
    by simp
  have nl': "noEOL l'"
    using dec(3) unfolding l'_def noEOL_def
    by (auto simp: isEOL_def CR_def LF_def dest: in_set_takeD in_set_dropD)
  note atl = splitLines_at_line[OF dec(2) nl' dec(4)]
  have pl': "removeLineComment l' = take closeIdx pl @ CHR '' '' # drop closeIdx pl"
    unfolding l'_def pl_def
    using mp(2) lc by (intro removeLineComment_insert_space) (simp_all add: pl_def)
  note clean1 = fixed_call_clean(1)[OF c o m nb sp, folded pl']
  note clean2 = fixed_call_clean(2)[OF c o m nb sp, of n, folded pl']
  have "rangeStart (range d') \<noteq> rangeStart (range d)"
    if d': "d' \<in> set (checkFunctionSpaces (applyTextEdit (content doc) ?edit) (uri doc))" for d'
  proof
    assume eq: "rangeStart (range d') = rangeStart (range d)"
    then have n': "line (rangeStart (range d')) = n" and s': "character (rangeStart (range d')) = s"
      by (simp_all add: n_def s_def)
    note org' = checkFunctionSpaces_origin[OF d', unfolded tx' n' s']
    from org'(3) atl obtain fname' e1' where
      c': "callStartAt (removeLineComment l') s = Some (fname', e1')"
      and dc': "d' \<in> set (checkCall n (removeLineComment l') s fname')" by auto
    from c' clean1 have "fname' = fname" by simp
    with dc' clean2 show False by simp
  qed
  with tne tlast act show ?thesis unfolding t_def by blast
qed

theorem quick_fix_clears_diagnostic_witness:
  "map_of [(uri fixDoc, fixDoc)] (uri fixDoc) = Some fixDoc
   \<and> noLoneCR (content fixDoc)
   \<and> checkFunctionSpaces (content fixDoc) (uri fixDoc)
       = [spacingDiagnostic 1 7 14 msgBefore, spacingDiagnostic 1 10 13 msgBoth]
   \<and> str_includes (message (spacingDiagnostic 1 7 14 msgBefore))
         (''space before '' @ [CHR 0x27] @ '')'' @ [CHR 0x27])
   \<and> getText (content fixDoc) (range (spacingDiagnostic 1 7 14 msgBefore)) = ''f( h(a))''
   \<and> map (\<lambda>a. map (\<lambda>(u, es). map newText es) (changes a))
         (onCodeAction [(uri fixDoc, fixDoc)]
            \<lparr>textDocumentUri = uri fixDoc,
             contextDiagnostics = [spacingDiagnostic 1 7 14 msgBefore]\<rparr>)
       = [[[''f( h(a) )'']]]
   \<and> checkFunctionSpaces
         (applyTextEdit (content fixDoc)
            \<lparr>editRange = range (spacingDiagnostic 1 7 14 msgBefore), newText = ''f( h(a) )''\<rparr>)
         (uri fixDoc)
       = [spacingDiagnostic 1 10 13 msgBoth]
   \<and> rangeStart (range (spacingDiagnostic 1 7 14 msgBefore))
       \<notin> (\<lambda>d'. rangeStart (range d')) `
           set (checkFunctionSpaces
                  (applyTextEdit (content fixDoc)
                     \<lparr>editRange = range (spacingDiagnostic 1 7 14 msgBefore),
                      newText = butlast (getText (content fixDoc)
                                  (range (spacingDiagnostic 1 7 14 msgBefore))) @ '' )''\<rparr>)
                  (uri fixDoc))"
proof -
  let ?d = "spacingDiagnostic 1 7 14 msgBefore"
  have a: "map_of [(uri fixDoc, fixDoc)] (uri fixDoc) = Some fixDoc" by simp
  have b: "noLoneCR (content fixDoc)" by code_simp
  have c: "checkFunctionSpaces (content fixDoc) (uri fixDoc)
       = [?d, spacingDiagnostic 1 10 13 msgBoth]" by code_simp
  then have c': "?d \<in> set (checkFunctionSpaces (content fixDoc) (uri fixDoc))" by simp
  have d: "str_includes (message ?d) (''space before '' @ [CHR 0x27] @ '')'' @ [CHR 0x27])"
    by code_simp
  have e: "getText (content fixDoc) (range ?d) = ''f( h(a))''" by code_simp
  have f: "map (\<lambda>a. map (\<lambda>(u, es). map newText es) (changes a))
         (onCodeAction [(uri fixDoc, fixDoc)]
            \<lparr>textDocumentUri = uri fixDoc, contextDiagnostics = [?d]\<rparr>)
       = [[[''f( h(a) )'']]]" by code_simp
  have g: "checkFunctionSpaces
         (applyTextEdit (content fixDoc) \<lparr>editRange = range ?d, newText = ''f( h(a) )''\<rparr>)
         (uri fixDoc)
       = [spacingDiagnostic 1 10 13 msgBoth]" by code_simp
  from quick_fix_clears_diagnostic[OF a b c' d]
  have "\<forall>d' \<in> set (checkFunctionSpaces
                  (applyTextEdit (content fixDoc)
                     \<lparr>editRange = range ?d,
                      newText = butlast (getText (content fixDoc) (range ?d)) @ '' )''\<rparr>)
                  (uri fixDoc)).
          rangeStart (range d') \<noteq> rangeStart (range ?d)" by blast
  then have h: "rangeStart (range ?d)
       \<notin> (\<lambda>d'. rangeStart (range d')) `
           set (checkFunctionSpaces
                  (applyTextEdit (content fixDoc)
                     \<lparr>editRange = range ?d,
                      newText = butlast (getText (content fixDoc) (range ?d)) @ '' )''\<rparr>)
                  (uri fixDoc))" by force
  from a b c d e f g h show ?thesis by blast
qed

text \<open>No edit is produced for a document that is not open, nor where the range spans no
  closing parenthesis: in a line with a carriage return alone, which ends a line of the
  document and not a line of the rule, the range of the diagnostic lies elsewhere.\<close>
theorem quick_fix_unavailable:
  "fixFunctionSapces []
      \<lparr>textDocumentUri = uri fixDoc, contextDiagnostics = [spacingDiagnostic 1 7 14 msgBefore]\<rparr>
      (spacingDiagnostic 1 7 14 msgBefore) = None
   \<and> checkFunctionSpaces (content loneCRDoc) (uri loneCRDoc) = [spacingDiagnostic 0 1 5 msgBefore]
   \<and> getText (content loneCRDoc) (range (spacingDiagnostic 0 1 5 msgBefore)) = []
   \<and> onCodeAction [(uri loneCRDoc, loneCRDoc)]
        \<lparr>textDocumentUri = uri loneCRDoc,
         contextDiagnostics = checkFunctionSpaces (content loneCRDoc) (uri loneCRDoc)\<rparr> = []"
  by code_simp

section \<open>The calls the loop goes through\<close>

lemma scanCalls_detected:
  "scanCalls n l i = concat (map (\<lambda>(s, f, e). checkCall n l s f) (detectedCalls l i))"
proof (induction n l i rule: scanCalls.induct)
  case (1 lineNum l i)
  show ?case
  proof (cases "execCallStart l i")
    case None
    then show ?thesis by (simp add: scanCalls.simps detectedCalls.simps)
  next
    case (Some a)
    obtain s f e where a: "a = (s, f, e)" by (cases a) auto
    from "1.IH"[OF Some a[symmetric] refl] Some a show ?thesis
      by (simp add: scanCalls_step detectedCalls.simps[of l i])
  qed
qed

lemma detectedCalls_ge:
  "(s, f, e) \<in> set (detectedCalls l i) \<Longrightarrow> i \<le> s"
proof (induction l i rule: detectedCalls.induct)
  case (1 l i)
  show ?case
  proof (cases "execCallStart l i")
    case None
    with "1.prems" show ?thesis by (simp add: detectedCalls.simps)
  next
    case (Some a)
    obtain s0 f0 e0 where a: "a = (s0, f0, e0)" by (cases a) auto
    note b = execCallStart_bounds[OF Some[unfolded a]]
    from "1.prems" Some a have "(s, f, e) = (s0, f0, e0) \<or> (s, f, e) \<in> set (detectedCalls l e0)"
      by (simp add: detectedCalls.simps[of l i])
    then show ?thesis
    proof
      assume "(s, f, e) = (s0, f0, e0)"
      with b show ?thesis by simp
    next
      assume "(s, f, e) \<in> set (detectedCalls l e0)"
      from "1.IH"[OF Some a[symmetric] refl this] b show ?thesis by simp
    qed
  qed
qed

text \<open>The matches come in the order of the line: those before a match start before it, those
  after it start after its parenthesis.\<close>
lemma detectedCalls_split:
  "(s, f, e) \<in> set (detectedCalls l i) \<Longrightarrow>
     \<exists>pre. detectedCalls l i = pre @ (s, f, e) # detectedCalls l e
        \<and> (\<forall>c \<in> set pre. fst c < s)"
proof (induction l i rule: detectedCalls.induct)
  case (1 l i)
  show ?case
  proof (cases "execCallStart l i")
    case None
    with "1.prems" show ?thesis by (simp add: detectedCalls.simps)
  next
    case (Some a)
    obtain s0 f0 e0 where a: "a = (s0, f0, e0)" by (cases a) auto
    note b = execCallStart_bounds[OF Some[unfolded a]]
    have unf: "detectedCalls l i = (s0, f0, e0) # detectedCalls l e0"
      using Some a by (simp add: detectedCalls.simps[of l i])
    show ?thesis
    proof (cases "(s, f, e) = (s0, f0, e0)")
      case True
      then have "detectedCalls l i = [] @ (s, f, e) # detectedCalls l e" using unf by simp
      then show ?thesis by (metis empty_iff empty_set)
    next
      case False
      from "1.prems" have "(s, f, e) \<in> set ((s0, f0, e0) # detectedCalls l e0)"
        unfolding unf .
      with False have m: "(s, f, e) \<in> set (detectedCalls l e0)" by auto
      from "1.IH"[OF Some a[symmetric] refl m] obtain pre where
        pre: "detectedCalls l e0 = pre @ (s, f, e) # detectedCalls l e" "\<forall>c \<in> set pre. fst c < s"
        by blast
      have "s0 < s" using detectedCalls_ge[OF m] b by simp
      then have "detectedCalls l i = ((s0, f0, e0) # pre) @ (s, f, e) # detectedCalls l e
          \<and> (\<forall>c \<in> set ((s0, f0, e0) # pre). fst c < s)"
        using unf pre by simp
      then show ?thesis by blast
    qed
  qed
qed

lemma detectedCalls_exec:
  "(s, f, e) \<in> set (detectedCalls l i) \<Longrightarrow> \<exists>j. execCallStart l j = Some (s, f, e)"
proof (induction l i rule: detectedCalls.induct)
  case (1 l i)
  show ?case
  proof (cases "execCallStart l i")
    case None
    with "1.prems" show ?thesis by (simp add: detectedCalls.simps)
  next
    case (Some a)
    obtain s0 f0 e0 where a: "a = (s0, f0, e0)" by (cases a) auto
    from "1.prems" Some a
    have "(s, f, e) = (s0, f0, e0) \<or> (s, f, e) \<in> set (detectedCalls l e0)"
      by (simp add: detectedCalls.simps[of l i])
    then show ?thesis
    proof
      assume "(s, f, e) = (s0, f0, e0)"
      with Some a show ?thesis by blast
    next
      assume "(s, f, e) \<in> set (detectedCalls l e0)"
      from "1.IH"[OF Some a[symmetric] refl this] show ?thesis .
    qed
  qed
qed

lemma checkCall_other_start:
  "s' \<noteq> s \<Longrightarrow> filter (\<lambda>d. character (rangeStart (range d)) = s) (checkCall n l s' f) = []"
  using checkCall_line[of _ n l s' f] by (auto simp: filter_empty_conv)

lemma checkCall_same_start:
  "filter (\<lambda>d. character (rangeStart (range d)) = s) (checkCall n l s f) = checkCall n l s f"
  using checkCall_line[of _ n l s f] by (auto simp: filter_id_conv)

lemma filter_concat_none:
  "(\<And>x. x \<in> set xs \<Longrightarrow> filter P (g x) = []) \<Longrightarrow> filter P (concat (map g xs)) = []"
  by (induction xs) auto

text \<open>Of the diagnostics of a line, those that start at a match the loop goes through are the
  ones pushed for that match.\<close>
lemma scanCalls_at_start:
  assumes "(s, f, e) \<in> set (detectedCalls l i)"
  shows "filter (\<lambda>d. character (rangeStart (range d)) = s) (scanCalls n l i) = checkCall n l s f"
proof -
  let ?P = "\<lambda>d. character (rangeStart (range d)) = s"
  let ?g = "\<lambda>(s, f, e). checkCall n l s f"
  from detectedCalls_split[OF assms] obtain pre where
    pre: "detectedCalls l i = pre @ (s, f, e) # detectedCalls l e" "\<forall>c \<in> set pre. fst c < s"
    by blast
  have 1: "filter ?P (concat (map ?g pre)) = []"
  proof (rule filter_concat_none)
    fix x assume "x \<in> set pre"
    with pre(2) have "fst x \<noteq> s" by auto
    then show "filter ?P (?g x) = []"
      by (cases x) (simp add: checkCall_other_start)
  qed
  have 2: "filter ?P (concat (map ?g (detectedCalls l e))) = []"
  proof (rule filter_concat_none)
    fix x assume x: "x \<in> set (detectedCalls l e)"
    obtain s' f' e' where xe: "x = (s', f', e')" by (cases x) auto
    have "e \<le> s'" using detectedCalls_ge x xe by blast
    moreover have "s < e"
      using detectedCalls_exec[OF assms] execCallStart_bounds by blast
    ultimately have "s' \<noteq> s" by simp
    then show "filter ?P (?g x) = []" using xe by (simp add: checkCall_other_start)
  qed
  show ?thesis
    unfolding scanCalls_detected pre(1) using 1 2 by (simp add: checkCall_same_start)
qed

lemma filter_all: "(\<And>x. x \<in> set xs \<Longrightarrow> P x) \<Longrightarrow> filter P xs = xs"
  by (simp add: filter_id_conv)

lemma filter_none: "(\<And>x. x \<in> set xs \<Longrightarrow> \<not> P x) \<Longrightarrow> filter P xs = []"
  by (simp add: filter_empty_conv)

text \<open>The diagnostics of the result that lie on one line are those of the scan of that line,
  or none when the line is skipped.\<close>
lemma lintLines_on_line:
  "j < length ls \<Longrightarrow>
     filter (\<lambda>d. line (rangeStart (range d)) = k + j) (lintLines k b ls)
       = (if skipLine (foldl commentStep b (take (Suc j) ls)) (ls ! j) then []
          else scanCalls (k + j) (stripStrings (removeLineComment (ls ! j))) 0)"
proof (induction ls arbitrary: k b j)
  case Nil
  then show ?case by simp
next
  case (Cons l ls)
  let ?b = "commentStep b l"
  let ?here = "if skipLine ?b l then [] else scanCalls k (stripStrings (removeLineComment l)) 0"
  have unf: "lintLines k b (l # ls) = ?here @ lintLines (Suc k) ?b ls" by (simp add: Let_def)
  have here: "line (rangeStart (range d)) = k" if "d \<in> set ?here" for d
    using that scanCalls_line by (auto split: if_splits)
  show ?case
  proof (cases j)
    case 0
    have "filter (\<lambda>d. line (rangeStart (range d)) = k + j) ?here = ?here"
      using here 0 by (intro filter_all) simp
    moreover have "filter (\<lambda>d. line (rangeStart (range d)) = k + j) (lintLines (Suc k) ?b ls) = []"
    proof (rule filter_none)
      fix d assume "d \<in> set (lintLines (Suc k) ?b ls)"
      from lintLines_line_ge[OF this] 0 show "line (rangeStart (range d)) \<noteq> k + j" by simp
    qed
    ultimately show ?thesis unfolding unf using 0 by simp
  next
    case (Suc j')
    have "filter (\<lambda>d. line (rangeStart (range d)) = k + j) ?here = []"
    proof (rule filter_none)
      fix d assume "d \<in> set ?here"
      from here[OF this] Suc show "line (rangeStart (range d)) \<noteq> k + j" by simp
    qed
    moreover have "filter (\<lambda>d. line (rangeStart (range d)) = Suc k + j') (lintLines (Suc k) ?b ls)
        = (if skipLine (foldl commentStep ?b (take (Suc j') ls)) (ls ! j') then []
           else scanCalls (Suc k + j') (stripStrings (removeLineComment (ls ! j'))) 0)"
      using Cons.prems Suc by (intro Cons.IH) simp
    ultimately show ?thesis unfolding unf using Suc by simp
  qed
qed

lemma position_eq:
  "(p = \<lparr>line = n, character = s\<rparr>) \<longleftrightarrow> line p = n \<and> character p = s"
  by (cases p) auto

text \<open>Of all the diagnostics of a text, those that start at a match the loop goes through on
  a line it does not skip are the ones pushed for that match.\<close>
lemma checkFunctionSpaces_at_call:
  assumes "detectedOn tx n l (s, f, e)"
  shows "filter (\<lambda>d. rangeStart (range d) = \<lparr>line = n, character = s\<rparr>)
           (checkFunctionSpaces tx u) = checkCall n l s f"
proof -
  from assms have n: "n < length (splitLines tx)"
    and skip: "\<not> skipLine (commentStateAt (splitLines tx) n) (splitLines tx ! n)"
    and l: "l = stripStrings (removeLineComment (splitLines tx ! n))"
    and det: "(s, f, e) \<in> set (detectedCalls l 0)"
    by (auto simp: detectedOn_def)
  have "filter (\<lambda>d. rangeStart (range d) = \<lparr>line = n, character = s\<rparr>) (checkFunctionSpaces tx u)
      = filter (\<lambda>d. character (rangeStart (range d)) = s)
          (filter (\<lambda>d. line (rangeStart (range d)) = 0 + n) (lintLines 0 False (splitLines tx)))"
    by (simp add: checkFunctionSpaces_def position_eq conj_commute)
  also have "filter (\<lambda>d. line (rangeStart (range d)) = 0 + n) (lintLines 0 False (splitLines tx))
      = scanCalls n l 0"
    unfolding lintLines_on_line[OF n] using skip l by (simp add: commentStateAt_def)
  also have "filter (\<lambda>d. character (rangeStart (range d)) = s) (scanCalls n l 0) = checkCall n l s f"
    by (rule scanCalls_at_start[OF det])
  finally show ?thesis .
qed

lemma isSpace_not_identChar: "isSpace c \<Longrightarrow> \<not> identChar c"
  by (auto simp: isSpace_def identChar_def isLetter_def isDigit_def code_def)

lemma paren_not_identChar [simp]: "\<not> identChar (CHR ''('')"
  by (simp add: identChar_def isLetter_def isDigit_def code_def)

lemma list_all_slice:
  assumes "b \<le> length l"
  shows "list_all P (slice l a b) \<longleftrightarrow> (\<forall>j. a \<le> j \<and> j < b \<longrightarrow> P (l ! j))"
proof
  assume h: "list_all P (slice l a b)"
  show "\<forall>j. a \<le> j \<and> j < b \<longrightarrow> P (l ! j)"
  proof (intro allI impI)
    fix j assume j: "a \<le> j \<and> j < b"
    define k where "k = j - a"
    have k: "a + k = j" using j by (simp add: k_def)
    have "k < length (slice l a b)" using j assms unfolding k_def by (simp add: length_slice) arith
    with h have "P (slice l a b ! k)" unfolding list_all_length by blast
    moreover have "slice l a b ! k = l ! (a + k)" using j k assms by (intro slice_nth) simp_all
    ultimately show "P (l ! j)" using k by simp
  qed
next
  assume h: "\<forall>j. a \<le> j \<and> j < b \<longrightarrow> P (l ! j)"
  show "list_all P (slice l a b)"
    unfolding list_all_length
  proof (intro allI impI)
    fix k assume "k < length (slice l a b)"
    then have kb: "a + k < b" using assms by (simp add: length_slice)
    then have "P (l ! (a + k))" using h by simp
    then show "P (slice l a b ! k)" using slice_nth[OF kb assms] by simp
  qed
qed

text \<open>The pattern matches at every call site.\<close>
lemma callSite_callStartAt:
  assumes "callSite l s k m"
  shows "callStartAt l s = Some (slice l s k, Suc m)"
proof -
  from assms have b: "s < k" "k \<le> m" "m < length l"
    and wb: "s = 0 \<or> \<not> identChar (l ! (s - 1))"
    and ident: "isIdentifier (slice l s k)"
    and sp: "list_all isSpace (slice l k m)"
    and par: "l ! m = CHR ''(''"
    by (auto simp: callSite_def)
  have kl: "k \<le> length l" using b by simp
  from ident have id: "identStart (l ! s)" "\<And>j. s < j \<Longrightarrow> j < k \<Longrightarrow> identChar (l ! j)"
    using isIdentifier_slice[OF b(1) kl] by auto
  have spc: "isSpace (l ! j)" if "k \<le> j" "j < m" for j
    using sp that list_all_slice[of m l isSpace k] b(3) by simp
  have nk: "\<not> identChar (l ! k)"
  proof (cases "k = m")
    case True
    then show ?thesis using par by simp
  next
    case False
    then have "isSpace (l ! k)" using spc b(2) by simp
    then show ?thesis by (rule isSpace_not_identChar)
  qed
  have rk: "runEnd identChar l (Suc s) = k"
    using b id(2) nk kl by (intro runEnd_unique) auto
  have rm: "runEnd isSpace l k = m"
    using b spc par by (intro runEnd_unique) auto
  have sl: "s < length l" using b by simp
  have "wordAt l s" using sl id(1) identStart_identChar by (simp add: wordAt_def)
  moreover have "\<not> (0 < s \<and> wordAt l (s - 1))" using wb by (auto simp: wordAt_def)
  ultimately have "wordBoundary l s" by (simp add: wordBoundary_def)
  then show ?thesis
    unfolding callStartAt_unfold[OF sl] rk rm using id(1) b(3) par by simp
qed

lemma execCallStart_first:
  "execCallStart l i = Some (s, f, e) \<Longrightarrow> i \<le> j \<Longrightarrow> j < s \<Longrightarrow> callStartAt l j = None"
proof (induction l i rule: execCallStart.induct)
  case (1 l i)
  show ?case
  proof (cases "callStartAt l i")
    case None
    with "1.prems"(1) have le: "\<not> length l < i" and nxt: "execCallStart l (Suc i) = Some (s, f, e)"
      by (auto simp: execCallStart.simps[of l i] split: if_splits)
    show ?thesis
    proof (cases "j = i")
      case True
      with None show ?thesis by simp
    next
      case False
      with "1.prems"(2) have "Suc i \<le> j" by simp
      from "1.IH"[OF le None nxt this "1.prems"(3)] show ?thesis .
    qed
  next
    case (Some a)
    with "1.prems"(1) have "s = i"
      by (cases a) (auto simp: execCallStart.simps[of l i] split: if_splits)
    with "1.prems"(2,3) show ?thesis by simp
  qed
qed

lemma execCallStart_None:
  "execCallStart l i = None \<Longrightarrow> i \<le> j \<Longrightarrow> callStartAt l j = None"
proof (induction l i rule: execCallStart.induct)
  case (1 l i)
  show ?case
  proof (cases "length l < i")
    case True
    with "1.prems"(2) have "drop j l = []" by simp
    then show ?thesis by (simp add: callStartAt_def)
  next
    case le: False
    from "1.prems"(1) le have None: "callStartAt l i = None"
      and nxt: "execCallStart l (Suc i) = None"
      by (auto simp: execCallStart.simps[of l i] split: if_splits option.splits)
    show ?thesis
    proof (cases "j = i")
      case True
      with None show ?thesis by simp
    next
      case False
      with "1.prems"(2) have "Suc i \<le> j" by simp
      from "1.IH"[OF le None nxt this] show ?thesis .
    qed
  qed
qed

text \<open>No match starts between the start of a match and the index after its parenthesis.\<close>
lemma no_match_inside_match:
  assumes c0: "callStartAt l s0 = Some (f0, e0)" and c: "callStartAt l s = Some (f, e)"
    and lt: "s0 < s"
  shows "e0 \<le> s"
proof (rule ccontr)
  assume "\<not> e0 \<le> s"
  then have se: "s < e0" by simp
  note d0 = callStartAt_SomeD[OF c0]
  note d = callStartAt_SomeD[OF c]
  let ?k = "runEnd identChar l (Suc s0)"
  let ?m = "runEnd isSpace l ?k"
  have sl: "Suc s0 \<le> length l" using d0(1) by simp
  note rk = runEnd_props[OF sl, where P = identChar]
  note rm = runEnd_props[OF rk(2), where P = isSpace]
  have sm: "s \<le> ?m" using se d0(5) by simp
  consider "s < ?k" | "?k \<le> s" "s < ?m" | "s = ?m" using sm by arith
  then show False
  proof cases
    case 1
    have "identChar (l ! s)" using rk(3)[of s] lt 1 by simp
    moreover have "identChar (l ! (s - 1))"
    proof (cases "s - 1 = s0")
      case True
      then show ?thesis using d0(3) identStart_identChar by simp
    next
      case False
      then show ?thesis using rk(3)[of "s - 1"] lt 1 by simp
    qed
    ultimately have "\<not> wordBoundary l s"
      using lt d(1) by (simp add: wordBoundary_def wordAt_def)
    with d(2) show False by simp
  next
    case 2
    then have "isSpace (l ! s)" using rm(3) by simp
    then have "\<not> identChar (l ! s)" by (rule isSpace_not_identChar)
    with d(3) identStart_identChar show False by blast
  next
    case 3
    then have "\<not> identChar (l ! s)" using d0(7) by simp
    with d(3) identStart_identChar show False by blast
  qed
qed

text \<open>The loop goes through every match of the pattern in the line.\<close>
lemma match_detected:
  "callStartAt l s = Some (f, e) \<Longrightarrow> i \<le> s \<Longrightarrow> (s, f, e) \<in> set (detectedCalls l i)"
proof (induction l i rule: detectedCalls.induct)
  case (1 l i)
  show ?case
  proof (cases "execCallStart l i")
    case None
    from execCallStart_None[OF None "1.prems"(2)] "1.prems"(1) show ?thesis by simp
  next
    case (Some a)
    obtain s0 f0 e0 where a: "a = (s0, f0, e0)" by (cases a) auto
    have ex: "execCallStart l i = Some (s0, f0, e0)" using Some a by simp
    have unf: "detectedCalls l i = (s0, f0, e0) # detectedCalls l e0"
      using ex by (simp add: detectedCalls.simps[of l i])
    have c0: "callStartAt l s0 = Some (f0, e0)" by (rule execCallStart_SomeD[OF ex])
    have "s0 \<le> s"
    proof (rule ccontr)
      assume "\<not> s0 \<le> s"
      then have "callStartAt l s = None"
        using execCallStart_first[OF ex "1.prems"(2)] by simp
      with "1.prems"(1) show False by simp
    qed
    show ?thesis
    proof (cases "s0 = s")
      case True
      with c0 "1.prems"(1) unf show ?thesis by simp
    next
      case False
      with \<open>s0 \<le> s\<close> have "s0 < s" by simp
      from no_match_inside_match[OF c0 "1.prems"(1) this] have "e0 \<le> s" .
      from "1.IH"[OF Some a[symmetric] refl "1.prems"(1) this] unf show ?thesis by simp
    qed
  qed
qed

section \<open>The spacing diagnostic of one call\<close>

text \<open>What the rule scans of a line it does not skip is the line up to its line comment.\<close>
lemma scanned_line_prefix:
  assumes "\<not> skipLine b orig" and "l = stripStrings (removeLineComment orig)"
  shows "\<exists>p. l = take p orig"
proof -
  from assms(1) have "dquote \<notin> set orig" by (simp add: skipLine_def str_includes_char)
  then have "dquote \<notin> set (removeLineComment orig)" using set_removeLineComment by blast
  then have "l = removeLineComment orig" using assms(2) by (simp add: stripStrings_no_quote)
  then show ?thesis using removeLineComment_prefix by simp
qed

text \<open>
  Claim C2. Take a call that \<open>checkFunctionSpaces\<close> detects in a text: on line \<open>n\<close> of the
  text, a line the rule does not skip, the loop goes through the match
  \<open>(startChar, functionName, lastIndex)\<close> of the call pattern, the opening parenthesis is
  found at \<open>openParenIdx\<close> and the matching closing one at \<open>closeParenIdx\<close>, and the argument
  text between them is not blank. Then, of all the diagnostics \<open>checkFunctionSpaces\<close> returns
  for the text, exactly one starts at the call, that is at line \<open>n\<close>, character \<open>startChar\<close>,
  when white space lacks on a side: its message is "Expected space before ')'" when the
  argument text starts with white space and does not end with it, "Expected space after '('"
  when it ends with white space and does not start with it, and the message naming both
  sides when it does neither; it has severity Warning, and its range runs on line \<open>n\<close> from
  \<open>startChar\<close> to the character after \<open>closeParenIdx\<close>. No diagnostic starts at the call when
  white space stands on both sides. In line \<open>n\<close> of the text itself the identifier of the call
  stands at \<open>startChar\<close> and a closing parenthesis at \<open>closeParenIdx\<close>.
\<close>
theorem spacing_diagnostic_per_call:
  assumes "detectedOn tx n l (startChar, functionName, lastIndex)"
    and "indexOf l (CHR ''('') (startChar + length functionName) = Some openParenIdx"
    and "matchParen (drop openParenIdx l) 0 openParenIdx = Some closeParenIdx"
    and "args = slice l (openParenIdx + 1) closeParenIdx"
    and "\<not> list_all isSpace args"
  shows "identStart (splitLines tx ! n ! startChar)
       \<and> slice (splitLines tx ! n) startChar (startChar + length functionName) = functionName
       \<and> splitLines tx ! n ! closeParenIdx = CHR '')''
       \<and> (isSpace (hd args) \<and> \<not> isSpace (last args) \<longrightarrow>
            filter (\<lambda>d. rangeStart (range d) = \<lparr>line = n, character = startChar\<rparr>)
              (checkFunctionSpaces tx u)
            = [spacingDiagnostic n startChar closeParenIdx msgBefore])
       \<and> (\<not> isSpace (hd args) \<and> isSpace (last args) \<longrightarrow>
            filter (\<lambda>d. rangeStart (range d) = \<lparr>line = n, character = startChar\<rparr>)
              (checkFunctionSpaces tx u)
            = [spacingDiagnostic n startChar closeParenIdx msgAfter])
       \<and> (\<not> isSpace (hd args) \<and> \<not> isSpace (last args) \<longrightarrow>
            filter (\<lambda>d. rangeStart (range d) = \<lparr>line = n, character = startChar\<rparr>)
              (checkFunctionSpaces tx u)
            = [spacingDiagnostic n startChar closeParenIdx msgBoth])
       \<and> (isSpace (hd args) \<and> isSpace (last args) \<longrightarrow>
            filter (\<lambda>d. rangeStart (range d) = \<lparr>line = n, character = startChar\<rparr>)
              (checkFunctionSpaces tx u)
            = [])"
proof -
  let ?orig = "splitLines tx ! n"
  from assms(1) have skip: "\<not> skipLine (commentStateAt (splitLines tx) n) ?orig"
    and l: "l = stripStrings (removeLineComment ?orig)"
    and det: "(startChar, functionName, lastIndex) \<in> set (detectedCalls l 0)"
    by (auto simp: detectedOn_def)
  from scanned_line_prefix[OF skip l] obtain p where p: "l = take p ?orig" by blast
  from detectedCalls_exec[OF det] obtain j where
    "execCallStart l j = Some (startChar, functionName, lastIndex)" by blast
  note cs = callStartAt_SomeD[OF execCallStart_SomeD[OF this]]
  have sl: "Suc startChar \<le> length l" using cs(1) by simp
  note rk = runEnd_props[OF sl, where P = identChar]
  have "length functionName = runEnd identChar l (Suc startChar) - startChar"
    unfolding cs(4) using rk(2) by (simp add: length_slice)
  then have k: "startChar + length functionName = runEnd identChar l (Suc startChar)"
    using rk(1) by simp
  then have ident: "slice l startChar (startChar + length functionName) = functionName"
    using cs(4) by simp
  note io = indexOf_SomeD[OF assms(2)]
  note mp = matchParen_open[OF assms(3) io(2) io(3)]
  have nth: "?orig ! i = l ! i" if "i < length l" for i
    using that unfolding p by simp
  have "startChar + length functionName \<le> p" using k rk(2) unfolding p by simp
  then have "slice ?orig startChar (startChar + length functionName)
      = slice l startChar (startChar + length functionName)"
    unfolding p by (simp add: slice_take)
  with ident have 1: "slice ?orig startChar (startChar + length functionName) = functionName"
    by simp
  have 2: "identStart (?orig ! startChar)" using nth[of startChar] cs(1,3) by simp
  have 3: "?orig ! closeParenIdx = CHR '')''" using nth[of closeParenIdx] mp(2,3) by simp
  have ne: "args \<noteq> []" using assms(5) by auto
  have "filter (\<lambda>d. rangeStart (range d) = \<lparr>line = n, character = startChar\<rparr>)
          (checkFunctionSpaces tx u)
      = (if isSpace (hd args) \<and> isSpace (last args) then []
         else [spacingDiagnostic n startChar closeParenIdx
                 (if isSpace (hd args) then msgBefore
                  else if isSpace (last args) then msgAfter else msgBoth)])"
    unfolding checkFunctionSpaces_at_call[OF assms(1)] checkCall_cases[OF assms(2,3)]
    using assms(4,5) by (simp add: Let_def)
  with 1 2 3 show ?thesis by simp
qed

theorem spacing_diagnostic_per_call_witness:
  "splitLines (content fixDoc) ! 1 = ''y = g( f( h(a)), 2 ); // note''
   \<and> detectedOn (content fixDoc) 1 ''y = g( f( h(a)), 2 ); '' (7, ''f'', 9)
   \<and> indexOf ''y = g( f( h(a)), 2 ); '' (CHR ''('') (7 + length ''f'') = Some 8
   \<and> matchParen (drop 8 ''y = g( f( h(a)), 2 ); '') 0 8 = Some 14
   \<and> slice ''y = g( f( h(a)), 2 ); '' (8 + 1) 14 = '' h(a)''
   \<and> \<not> list_all isSpace '' h(a)'' \<and> isSpace (hd '' h(a)'') \<and> \<not> isSpace (last '' h(a)'')
   \<and> identStart (splitLines (content fixDoc) ! 1 ! 7)
   \<and> slice (splitLines (content fixDoc) ! 1) 7 (7 + length ''f'') = ''f''
   \<and> splitLines (content fixDoc) ! 1 ! 14 = CHR '')''
   \<and> filter (\<lambda>d. rangeStart (range d) = \<lparr>line = 1, character = 7\<rparr>)
        (checkFunctionSpaces (content fixDoc) (uri fixDoc))
      = [spacingDiagnostic 1 7 14 msgBefore]
   \<and> checkFunctionSpaces (content fixDoc) (uri fixDoc)
      = [spacingDiagnostic 1 7 14 msgBefore, spacingDiagnostic 1 10 13 msgBoth]"
proof -
  have l1: "splitLines (content fixDoc) ! 1 = ''y = g( f( h(a)), 2 ); // note''" by code_simp
  have a: "detectedOn (content fixDoc) 1 ''y = g( f( h(a)), 2 ); '' (7, ''f'', 9)" by code_simp
  have b: "indexOf ''y = g( f( h(a)), 2 ); '' (CHR ''('') (7 + length ''f'') = Some 8"
    by code_simp
  have c: "matchParen (drop 8 ''y = g( f( h(a)), 2 ); '') 0 8 = Some 14" by code_simp
  have d: "'' h(a)'' = slice ''y = g( f( h(a)), 2 ); '' (8 + 1) 14" by code_simp
  have e: "\<not> list_all isSpace '' h(a)''" by code_simp
  have f: "isSpace (hd '' h(a)'')" "\<not> isSpace (last '' h(a)'')" by code_simp+
  have r: "checkFunctionSpaces (content fixDoc) (uri fixDoc)
      = [spacingDiagnostic 1 7 14 msgBefore, spacingDiagnostic 1 10 13 msgBoth]" by code_simp
  from spacing_diagnostic_per_call[OF a b c d e, of "uri fixDoc"] l1 a b c d e f r
  show ?thesis by simp
qed

section \<open>Calls without arguments, nested calls\<close>

text \<open>
  Claim C5. First, for a call that \<open>checkFunctionSpaces\<close> detects in a text and whose
  argument text, between the depth-matched parentheses, is empty or all white space, no
  diagnostic of the result starts at the call. Second, the loop leaves out no call: on a line
  the rule does not skip, every call site of the scanned line (an identifier that does not
  continue a word, white space or none, an opening parenthesis), wherever it stands, is a
  match the loop goes through, and the diagnostics of the result that start there are those
  of the check of that call alone, \<open>checkCall\<close> at its own start, which reads the line from
  the call's own opening parenthesis. Third, this holds for a call site between the
  parentheses of a detected call: the nested call is detected and checked on its own, and so
  is the outer one. Last, the line \<open>f( f2(a) )\<close>: the loop goes through \<open>f\<close> and \<open>f2\<close>, the
  outer call gives no diagnostic, the inner call \<open>f2(a)\<close> gives one, and that one is all the
  rule reports.
\<close>
theorem blank_arguments_and_nested_calls:
  "(detectedOn tx n l (startChar, functionName, lastIndex)
      \<and> indexOf l (CHR ''('') (startChar + length functionName) = Some openParenIdx
      \<and> matchParen (drop openParenIdx l) 0 openParenIdx = Some closeParenIdx
      \<and> list_all isSpace (slice l (openParenIdx + 1) closeParenIdx)
     \<longrightarrow> filter (\<lambda>d. rangeStart (range d) = \<lparr>line = n, character = startChar\<rparr>)
           (checkFunctionSpaces tx u) = [])
   \<and> (n < length (splitLines tx)
      \<and> \<not> skipLine (commentStateAt (splitLines tx) n) (splitLines tx ! n)
      \<and> l = stripStrings (removeLineComment (splitLines tx ! n))
      \<and> callSite l s k m
     \<longrightarrow> detectedOn tx n l (s, slice l s k, Suc m)
         \<and> filter (\<lambda>d. rangeStart (range d) = \<lparr>line = n, character = s\<rparr>)
             (checkFunctionSpaces tx u) = checkCall n l s (slice l s k))
   \<and> (detectedOn tx n l (startChar, functionName, lastIndex)
      \<and> indexOf l (CHR ''('') (startChar + length functionName) = Some openParenIdx
      \<and> matchParen (drop openParenIdx l) 0 openParenIdx = Some closeParenIdx
      \<and> callSite l s k m \<and> openParenIdx < s \<and> m < closeParenIdx
     \<longrightarrow> detectedOn tx n l (s, slice l s k, Suc m)
         \<and> filter (\<lambda>d. rangeStart (range d) = \<lparr>line = n, character = s\<rparr>)
             (checkFunctionSpaces tx u) = checkCall n l s (slice l s k)
         \<and> filter (\<lambda>d. rangeStart (range d) = \<lparr>line = n, character = startChar\<rparr>)
             (checkFunctionSpaces tx u) = checkCall n l startChar functionName)
   \<and> detectedCalls ''f( f2(a) )'' 0 = [(0, ''f'', 2), (3, ''f2'', 6)]
   \<and> checkCall 0 ''f( f2(a) )'' 0 ''f'' = []
   \<and> checkCall 0 ''f( f2(a) )'' 3 ''f2'' = [spacingDiagnostic 0 3 7 msgBoth]
   \<and> checkFunctionSpaces ''f( f2(a) )'' u = [spacingDiagnostic 0 3 7 msgBoth]"
proof -
  have blank: "filter (\<lambda>d. rangeStart (range d) = \<lparr>line = n, character = startChar\<rparr>)
           (checkFunctionSpaces tx u) = []"
    if "detectedOn tx n l (startChar, functionName, lastIndex)"
      and "indexOf l (CHR ''('') (startChar + length functionName) = Some openParenIdx"
      and "matchParen (drop openParenIdx l) 0 openParenIdx = Some closeParenIdx"
      and "list_all isSpace (slice l (openParenIdx + 1) closeParenIdx)"
    unfolding checkFunctionSpaces_at_call[OF that(1)] checkCall_cases[OF that(2,3)]
    using that(4) by simp
  have site: "detectedOn tx n l (s, slice l s k, Suc m)
         \<and> filter (\<lambda>d. rangeStart (range d) = \<lparr>line = n, character = s\<rparr>)
             (checkFunctionSpaces tx u) = checkCall n l s (slice l s k)"
    if "n < length (splitLines tx)"
      and "\<not> skipLine (commentStateAt (splitLines tx) n) (splitLines tx ! n)"
      and "l = stripStrings (removeLineComment (splitLines tx ! n))"
      and "callSite l s k m"
  proof -
    have "(s, slice l s k, Suc m) \<in> set (detectedCalls l 0)"
      using callSite_callStartAt[OF that(4)] by (intro match_detected) simp_all
    then have d: "detectedOn tx n l (s, slice l s k, Suc m)"
      using that(1,2,3) by (simp add: detectedOn_def)
    from d checkFunctionSpaces_at_call[OF d] show ?thesis by simp
  qed
  have nested: "detectedOn tx n l (s, slice l s k, Suc m)
         \<and> filter (\<lambda>d. rangeStart (range d) = \<lparr>line = n, character = s\<rparr>)
             (checkFunctionSpaces tx u) = checkCall n l s (slice l s k)
         \<and> filter (\<lambda>d. rangeStart (range d) = \<lparr>line = n, character = startChar\<rparr>)
             (checkFunctionSpaces tx u) = checkCall n l startChar functionName"
    if d: "detectedOn tx n l (startChar, functionName, lastIndex)" and c: "callSite l s k m"
  proof -
    from d have "n < length (splitLines tx)"
      "\<not> skipLine (commentStateAt (splitLines tx) n) (splitLines tx ! n)"
      "l = stripStrings (removeLineComment (splitLines tx ! n))"
      by (auto simp: detectedOn_def)
    from site[OF this c] checkFunctionSpaces_at_call[OF d] show ?thesis by simp
  qed
  have 1: "detectedCalls ''f( f2(a) )'' 0 = [(0, ''f'', 2), (3, ''f2'', 6)]" by code_simp
  have 2: "checkCall 0 ''f( f2(a) )'' 0 ''f'' = []" by code_simp
  have 3: "checkCall 0 ''f( f2(a) )'' 3 ''f2'' = [spacingDiagnostic 0 3 7 msgBoth]" by code_simp
  have 4: "lintLines 0 False (splitLines ''f( f2(a) )'') = [spacingDiagnostic 0 3 7 msgBoth]"
    by code_simp
  show ?thesis using blank site nested 1 2 3 4 unfolding checkFunctionSpaces_def by blast
qed

theorem blank_arguments_and_nested_calls_witness:
  "splitLines nestedCallText ! 1 = ''f( g( ), h(a) )''
   \<and> detectedOn nestedCallText 1 ''f( g( ), h(a) )'' (3, ''g'', 5)
   \<and> indexOf ''f( g( ), h(a) )'' (CHR ''('') (3 + length ''g'') = Some 4
   \<and> matchParen (drop 4 ''f( g( ), h(a) )'') 0 4 = Some 6
   \<and> list_all isSpace (slice ''f( g( ), h(a) )'' (4 + 1) 6)
   \<and> filter (\<lambda>d. rangeStart (range d) = \<lparr>line = 1, character = 3\<rparr>)
        (checkFunctionSpaces nestedCallText ''file:///a.afl'') = []
   \<and> detectedOn nestedCallText 1 ''f( g( ), h(a) )'' (0, ''f'', 2)
   \<and> indexOf ''f( g( ), h(a) )'' (CHR ''('') (0 + length ''f'') = Some 1
   \<and> matchParen (drop 1 ''f( g( ), h(a) )'') 0 1 = Some 14
   \<and> callSite ''f( g( ), h(a) )'' 9 10 10 \<and> (1::nat) < 9 \<and> (10::nat) < 14
   \<and> slice ''f( g( ), h(a) )'' 9 10 = ''h''
   \<and> detectedOn nestedCallText 1 ''f( g( ), h(a) )'' (9, ''h'', Suc 10)
   \<and> filter (\<lambda>d. rangeStart (range d) = \<lparr>line = 1, character = 9\<rparr>)
        (checkFunctionSpaces nestedCallText ''file:///a.afl'')
      = [spacingDiagnostic 1 9 12 msgBoth]
   \<and> filter (\<lambda>d. rangeStart (range d) = \<lparr>line = 1, character = 0\<rparr>)
        (checkFunctionSpaces nestedCallText ''file:///a.afl'') = []
   \<and> checkFunctionSpaces nestedCallText ''file:///a.afl'' = [spacingDiagnostic 1 9 12 msgBoth]"
proof -
  let ?l = "''f( g( ), h(a) )''"
  let ?u = "''file:///a.afl''"
  have l1: "splitLines nestedCallText ! 1 = ?l" by code_simp
  have a: "detectedOn nestedCallText 1 ?l (3, ''g'', 5)" by code_simp
  have b: "indexOf ?l (CHR ''('') (3 + length ''g'') = Some 4" by code_simp
  have c: "matchParen (drop 4 ?l) 0 4 = Some 6" by code_simp
  have d: "list_all isSpace (slice ?l (4 + 1) 6)" by code_simp
  have a0: "detectedOn nestedCallText 1 ?l (0, ''f'', 2)" by code_simp
  have b0: "indexOf ?l (CHR ''('') (0 + length ''f'') = Some 1" by code_simp
  have c0: "matchParen (drop 1 ?l) 0 1 = Some 14" by code_simp
  have s: "callSite ?l 9 10 10" by code_simp
  have sl: "slice ?l 9 10 = ''h''" by code_simp
  have k1: "checkCall 1 ?l 9 ''h'' = [spacingDiagnostic 1 9 12 msgBoth]" by code_simp
  have k0: "checkCall 1 ?l 0 ''f'' = []" by code_simp
  have r: "checkFunctionSpaces nestedCallText ?u = [spacingDiagnostic 1 9 12 msgBoth]"
    by code_simp
  note thm1 = blank_arguments_and_nested_calls[where tx = nestedCallText and n = 1 and l = ?l
      and startChar = 3 and functionName = "''g''" and lastIndex = 5 and openParenIdx = 4
      and closeParenIdx = 6 and u = ?u]
  note thm2 = blank_arguments_and_nested_calls[where tx = nestedCallText and n = 1 and l = ?l
      and startChar = 0 and functionName = "''f''" and lastIndex = 2 and openParenIdx = 1
      and closeParenIdx = 14 and s = 9 and k = 10 and m = 10 and u = ?u]
  have blank: "filter (\<lambda>d. rangeStart (range d) = \<lparr>line = 1, character = 3\<rparr>)
        (checkFunctionSpaces nestedCallText ?u) = []"
    using thm1 a b c d by blast
  have nested: "detectedOn nestedCallText 1 ?l (9, slice ?l 9 10, Suc 10)
      \<and> filter (\<lambda>d. rangeStart (range d) = \<lparr>line = 1, character = 9\<rparr>)
          (checkFunctionSpaces nestedCallText ?u) = checkCall 1 ?l 9 (slice ?l 9 10)
      \<and> filter (\<lambda>d. rangeStart (range d) = \<lparr>line = 1, character = 0\<rparr>)
          (checkFunctionSpaces nestedCallText ?u) = checkCall 1 ?l 0 ''f''"
    using thm2 a0 b0 c0 s by simp
  from blank nested l1 a b c d a0 b0 c0 s sl k1 k0 r show ?thesis by simp
qed

section \<open>Lines the rule skips\<close>

lemma commentStep_eq:
  "commentStep b l = ((b \<or> str_includes l ''/*'') \<and> \<not> str_includes l ''*/'')"
  by (auto simp: commentStep_def Let_def)

lemma commentStateAt_Suc:
  "Suc n < length ls \<Longrightarrow> commentStateAt ls (Suc n) = commentStep (commentStateAt ls n) (ls ! Suc n)"
  by (simp add: commentStateAt_def take_Suc_conv_app_nth[of "Suc n"])

lemma commentStateAt_0: "0 < length ls \<Longrightarrow> commentStateAt ls 0 = commentStep False (ls ! 0)"
  by (cases ls) (simp_all add: commentStateAt_def)

lemma commentStateAt_opened:
  "n < length ls \<Longrightarrow> commentStateAt ls n \<Longrightarrow>
     \<exists>i\<le>n. str_includes (ls ! i) ''/*''
        \<and> (\<forall>j. i \<le> j \<and> j \<le> n \<longrightarrow> \<not> str_includes (ls ! j) ''*/'')"
proof (induction n)
  case 0
  then have "str_includes (ls ! 0) ''/*'' \<and> \<not> str_includes (ls ! 0) ''*/''"
    by (simp add: commentStateAt_0 commentStep_eq)
  then show ?case by auto
next
  case (Suc n)
  from Suc.prems have st: "(commentStateAt ls n \<or> str_includes (ls ! Suc n) ''/*'')"
    and cl: "\<not> str_includes (ls ! Suc n) ''*/''"
    by (simp_all add: commentStateAt_Suc commentStep_eq)
  show ?case
  proof (cases "str_includes (ls ! Suc n) ''/*''")
    case True
    have "\<forall>j. Suc n \<le> j \<and> j \<le> Suc n \<longrightarrow> \<not> str_includes (ls ! j) ''*/''"
      using cl by (auto simp: le_antisym)
    with True show ?thesis by blast
  next
    case False
    with st have "commentStateAt ls n" by simp
    with Suc.IH Suc.prems(1) obtain i where i: "i \<le> n" "str_includes (ls ! i) ''/*''"
      "\<forall>j. i \<le> j \<and> j \<le> n \<longrightarrow> \<not> str_includes (ls ! j) ''*/''" by auto
    have "\<forall>j. i \<le> j \<and> j \<le> Suc n \<longrightarrow> \<not> str_includes (ls ! j) ''*/''"
    proof (intro allI impI)
      fix j assume j: "i \<le> j \<and> j \<le> Suc n"
      show "\<not> str_includes (ls ! j) ''*/''"
      proof (cases "j = Suc n")
        case True
        then show ?thesis using cl by simp
      next
        case False
        with j have "i \<le> j \<and> j \<le> n" by simp
        with i(3) show ?thesis by blast
      qed
    qed
    with i(1,2) show ?thesis by (intro exI[of _ i]) simp
  qed
qed

lemma commentStateAt_iff:
  assumes "n < length ls"
  shows "commentStateAt ls n \<longleftrightarrow>
     (\<exists>i\<le>n. str_includes (ls ! i) ''/*''
        \<and> (\<forall>j. i \<le> j \<and> j \<le> n \<longrightarrow> \<not> str_includes (ls ! j) ''*/''))"
proof
  assume "commentStateAt ls n"
  from commentStateAt_opened[OF assms this] show "\<exists>i\<le>n. str_includes (ls ! i) ''/*''
        \<and> (\<forall>j. i \<le> j \<and> j \<le> n \<longrightarrow> \<not> str_includes (ls ! j) ''*/'')" .
next
  assume "\<exists>i\<le>n. str_includes (ls ! i) ''/*''
        \<and> (\<forall>j. i \<le> j \<and> j \<le> n \<longrightarrow> \<not> str_includes (ls ! j) ''*/'')"
  then obtain i where "i \<le> n" "str_includes (ls ! i) ''/*''"
    "\<forall>j. i \<le> j \<and> j \<le> n \<longrightarrow> \<not> str_includes (ls ! j) ''*/''" by blast
  from commentStateAt_block[OF this(1) assms this(2,3)] show "commentStateAt ls n" .
qed

text \<open>
  Claim C6, as the code has it. The rule tracks block comments by line: line \<open>n\<close> is tested
  with the flag set exactly when some line \<open>i \<le> n\<close> contains \<open>/*\<close> and no line from \<open>i\<close> to \<open>n\<close>
  contains \<open>*/\<close>. In any text, such a line, a line that is a line comment after optional white
  space, and a line that contains a double quote contribute no diagnostic, whatever calls
  they hold. Every other line is scanned, in a comment or not: the diagnostics of the result
  on it are those of the scan of the line without its line comment.
\<close>
theorem skipped_lines_yield_no_diagnostics:
  assumes "n < length (splitLines tx)"
  shows "((\<exists>i\<le>n. str_includes (splitLines tx ! i) ''/*''
             \<and> (\<forall>j. i \<le> j \<and> j \<le> n \<longrightarrow> \<not> str_includes (splitLines tx ! j) ''*/''))
          \<or> isLineComment (splitLines tx ! n)
          \<or> str_includes (splitLines tx ! n) [dquote]
         \<longrightarrow> filter (\<lambda>d. line (rangeStart (range d)) = n) (checkFunctionSpaces tx u) = [])
       \<and> (\<not> (\<exists>i\<le>n. str_includes (splitLines tx ! i) ''/*''
             \<and> (\<forall>j. i \<le> j \<and> j \<le> n \<longrightarrow> \<not> str_includes (splitLines tx ! j) ''*/''))
          \<and> \<not> isLineComment (splitLines tx ! n)
          \<and> \<not> str_includes (splitLines tx ! n) [dquote]
         \<longrightarrow> filter (\<lambda>d. line (rangeStart (range d)) = n) (checkFunctionSpaces tx u)
             = scanCalls n (removeLineComment (splitLines tx ! n)) 0)"
proof -
  let ?ls = "splitLines tx"
  let ?C = "\<exists>i\<le>n. str_includes (?ls ! i) ''/*''
             \<and> (\<forall>j. i \<le> j \<and> j \<le> n \<longrightarrow> \<not> str_includes (?ls ! j) ''*/'')"
  have flag: "commentStateAt ?ls n \<longleftrightarrow> ?C" by (rule commentStateAt_iff[OF assms])
  have on: "filter (\<lambda>d. line (rangeStart (range d)) = n) (checkFunctionSpaces tx u)
      = (if skipLine (commentStateAt ?ls n) (?ls ! n) then []
         else scanCalls n (stripStrings (removeLineComment (?ls ! n))) 0)"
    using lintLines_on_line[OF assms, of 0 False]
    by (simp add: checkFunctionSpaces_def commentStateAt_def)
  have skip: "skipLine (commentStateAt ?ls n) (?ls ! n)
      \<longleftrightarrow> ?C \<or> isLineComment (?ls ! n) \<or> str_includes (?ls ! n) [dquote]"
    unfolding skipLine_def flag by blast
  have strip: "stripStrings (removeLineComment (?ls ! n)) = removeLineComment (?ls ! n)"
    if "\<not> str_includes (?ls ! n) [dquote]"
  proof -
    from that have "dquote \<notin> set (?ls ! n)" by (simp add: str_includes_char)
    then have "dquote \<notin> set (removeLineComment (?ls ! n))" using set_removeLineComment by blast
    then show ?thesis by (simp add: stripStrings_no_quote)
  qed
  show ?thesis unfolding on skip using strip by auto
qed

theorem skipped_lines_yield_no_diagnostics_witness:
  "length (splitLines sampleText) = 6
   \<and> splitLines sampleText ! 4 = ''f(a)''
   \<and> str_includes (splitLines sampleText ! 3) ''/*''
   \<and> \<not> str_includes (splitLines sampleText ! 3) ''*/''
   \<and> \<not> str_includes (splitLines sampleText ! 4) ''*/''
   \<and> filter (\<lambda>d. line (rangeStart (range d)) = 4)
        (checkFunctionSpaces sampleText ''file:///a.afl'') = []
   \<and> isLineComment (splitLines sampleText ! 1)
   \<and> filter (\<lambda>d. line (rangeStart (range d)) = 1)
        (checkFunctionSpaces sampleText ''file:///a.afl'') = []
   \<and> str_includes (splitLines sampleText ! 2) [dquote]
   \<and> filter (\<lambda>d. line (rangeStart (range d)) = 2)
        (checkFunctionSpaces sampleText ''file:///a.afl'') = []
   \<and> splitLines sampleText ! 5 = ''*/ k(z)''
   \<and> filter (\<lambda>d. line (rangeStart (range d)) = 5)
        (checkFunctionSpaces sampleText ''file:///a.afl'') = [spacingDiagnostic 5 3 6 msgBoth]
   \<and> checkFunctionSpaces sampleText ''file:///a.afl''
       = [spacingDiagnostic 0 0 3 msgBoth, spacingDiagnostic 5 3 6 msgBoth]"
proof -
  let ?ls = "splitLines sampleText"
  let ?u = "''file:///a.afl''"
  have len: "length ?ls = 6" by code_simp
  have l4: "?ls ! 4 = ''f(a)''" by code_simp
  have l5: "?ls ! 5 = ''*/ k(z)''" by code_simp
  have o3: "str_includes (?ls ! 3) ''/*''" by code_simp
  have c3: "\<not> str_includes (?ls ! 3) ''*/''" by code_simp
  have c4: "\<not> str_includes (?ls ! 4) ''*/''" by code_simp
  have c5: "str_includes (?ls ! 5) ''*/''" by code_simp
  have n5: "\<not> isLineComment (?ls ! 5)" "\<not> str_includes (?ls ! 5) [dquote]" by code_simp+
  have c1: "isLineComment (?ls ! 1)" by code_simp
  have c2: "str_includes (?ls ! 2) [dquote]" by code_simp
  have s5: "scanCalls 5 (removeLineComment ''*/ k(z)'') 0 = [spacingDiagnostic 5 3 6 msgBoth]"
    by code_simp
  have r: "checkFunctionSpaces sampleText ?u
       = [spacingDiagnostic 0 0 3 msgBoth, spacingDiagnostic 5 3 6 msgBoth]" by code_simp
  have "\<forall>j. 3 \<le> j \<and> j \<le> 4 \<longrightarrow> \<not> str_includes (?ls ! j) ''*/''"
  proof (intro allI impI)
    fix j :: nat assume "3 \<le> j \<and> j \<le> 4"
    then have "j = 3 \<or> j = 4" by arith
    then show "\<not> str_includes (?ls ! j) ''*/''" using c3 c4 by blast
  qed
  with o3 have op4: "\<exists>i\<le>4. str_includes (?ls ! i) ''/*''
      \<and> (\<forall>j. i \<le> j \<and> j \<le> 4 \<longrightarrow> \<not> str_includes (?ls ! j) ''*/'')"
    by (intro exI[of _ 3]) simp
  have no5: "\<not> (\<exists>i\<le>5. str_includes (?ls ! i) ''/*''
      \<and> (\<forall>j. i \<le> j \<and> j \<le> 5 \<longrightarrow> \<not> str_includes (?ls ! j) ''*/''))"
    using c5 by auto
  have f4: "filter (\<lambda>d. line (rangeStart (range d)) = 4) (checkFunctionSpaces sampleText ?u) = []"
    using skipped_lines_yield_no_diagnostics[of 4 sampleText ?u] len op4 by simp
  have f1: "filter (\<lambda>d. line (rangeStart (range d)) = 1) (checkFunctionSpaces sampleText ?u) = []"
    using skipped_lines_yield_no_diagnostics[of 1 sampleText ?u] len c1 by simp
  have f2: "filter (\<lambda>d. line (rangeStart (range d)) = 2) (checkFunctionSpaces sampleText ?u) = []"
    using skipped_lines_yield_no_diagnostics[of 2 sampleText ?u] len c2 by simp
  have f5: "filter (\<lambda>d. line (rangeStart (range d)) = 5) (checkFunctionSpaces sampleText ?u)
      = scanCalls 5 (removeLineComment (?ls ! 5)) 0"
    using skipped_lines_yield_no_diagnostics[of 5 sampleText ?u] len no5 n5 by simp
  from f4 f1 f2 f5 len l4 l5 o3 c3 c4 c1 c2 s5 r show ?thesis by simp
qed

text \<open>
  A line inside a block comment is linted when no line before it opened the comment without
  also holding a closing marker, and the text of a comment is linted on a line that holds
  the closing marker. In \<open>reopenedComment\<close> the first line closes one comment and opens the
  next, which switches the flag off: the call on the second line, inside the comment, is
  reported. In \<open>closedOnCallLine\<close> the comment closes after the call on the same line, and in
  \<open>/* f(a) */\<close> the comment opens and closes around the call: both calls are reported.
\<close>
theorem call_inside_block_comment_reported:
  "splitLines reopenedComment = [''/* a */ /* b'', ''f(a)'', ''*/'']
   \<and> insideBlockComment reopenedComment 1
   \<and> \<not> isLineComment (splitLines reopenedComment ! 1)
   \<and> \<not> str_includes (splitLines reopenedComment ! 1) [dquote]
   \<and> \<not> commentStateAt (splitLines reopenedComment) 1
   \<and> checkFunctionSpaces reopenedComment ''file:///a.afl'' = [spacingDiagnostic 1 0 3 msgBoth]
   \<and> splitLines closedOnCallLine = [''/*'', ''f(a) */'']
   \<and> insideBlockComment closedOnCallLine 1
   \<and> checkFunctionSpaces closedOnCallLine ''file:///a.afl'' = [spacingDiagnostic 1 0 3 msgBoth]
   \<and> blockCommentMask False ''/* f(a) */'' = replicate 10 True
   \<and> checkFunctionSpaces ''/* f(a) */'' ''file:///a.afl'' = [spacingDiagnostic 0 3 6 msgBoth]"
proof -
  have 1: "splitLines reopenedComment = [''/* a */ /* b'', ''f(a)'', ''*/'']" by code_simp
  have 2: "insideBlockComment reopenedComment 1" by code_simp
  have 3: "\<not> isLineComment (splitLines reopenedComment ! 1)" by code_simp
  have 4: "\<not> str_includes (splitLines reopenedComment ! 1) [dquote]" by code_simp
  have 5: "\<not> commentStateAt (splitLines reopenedComment) 1" by code_simp
  have 6: "checkFunctionSpaces reopenedComment ''file:///a.afl''
      = [spacingDiagnostic 1 0 3 msgBoth]" by code_simp
  have 7: "splitLines closedOnCallLine = [''/*'', ''f(a) */'']" by code_simp
  have 8: "insideBlockComment closedOnCallLine 1" by code_simp
  have 9: "checkFunctionSpaces closedOnCallLine ''file:///a.afl''
      = [spacingDiagnostic 1 0 3 msgBoth]" by code_simp
  have 10: "blockCommentMask False ''/* f(a) */'' = replicate 10 True" by code_simp
  have 11: "checkFunctionSpaces ''/* f(a) */'' ''file:///a.afl''
      = [spacingDiagnostic 0 3 6 msgBoth]" by code_simp
  from 1 2 3 4 5 6 7 8 9 10 11 show ?thesis by blast
qed

end
